theory Spec2Isabelle
  imports Complex_Main "HOL-Library.Stream"
begin

section \<open>The mutation engine of webFuzz (mutator.py)\<close>

text \<open>
  Parameter names and values are Python strings, modelled as \<open>string\<close>. A parameter
  carries a list of values. Exceptions of the source are values of \<open>error\<close>. The calls
  of the logger change no result and are left out; \<open>read_tokens\<close> reads a file, and what
  it returns is an argument of the constructor of the mutator below.
\<close>

datatype error = IndexError | ValueError | KeyError

type_synonym param = "string \<times> string list"

subsection \<open>The random source\<close>

text \<open>
  The module draws from Python's process-wide generator. The generator is outside the
  repository; the model makes it an explicit argument: an endless sequence of raw draws,
  of which every call of the library takes the next one and maps it onto the range the
  library documents for that call. Each function returns the rest of the sequence.
\<close>

type_synonym rng = "nat stream"

text \<open>\<open>random.randrange(start, stop)\<close>, called with \<open>start < stop\<close> only: a value of
  \<open>start, \<dots>, stop - 1\<close>. \<open>random.randint(a, b)\<close> is \<open>randrange(a, b + 1)\<close>.\<close>

definition randrange :: "nat \<Rightarrow> nat \<Rightarrow> rng \<Rightarrow> nat \<times> rng" where
  "randrange start stop g = (start + shd g mod (stop - start), stl g)"

definition randint :: "nat \<Rightarrow> nat \<Rightarrow> rng \<Rightarrow> nat \<times> rng" where
  "randint a b g = randrange a (b + 1) g"

text \<open>\<open>random.choice(seq)\<close>: IndexError on an empty sequence, else one of its elements.\<close>

definition random_choice :: "'a list \<Rightarrow> rng \<Rightarrow> error + ('a \<times> rng)" where
  "random_choice seq g =
     (if seq = [] then Inl IndexError else Inr (seq ! (shd g mod length seq), stl g))"

text \<open>
  \<open>random.choices(population, weights=weights, k=1)[0]\<close>. The library accumulates the
  weights, takes a point below their total and finds its place among the cumulative
  weights by bisection (\<open>bisect_right\<close> with \<open>lo = 0\<close> and \<open>hi = n - 1\<close>). The weights of
  this module are non-negative integers, so the point is a natural number below the
  total and each element is chosen for as many points as its weight.
\<close>

fun accumulate :: "nat \<Rightarrow> nat list \<Rightarrow> nat list" where
  "accumulate acc [] = []"
| "accumulate acc (w # ws) = (acc + w) # accumulate (acc + w) ws"

function bisect :: "nat list \<Rightarrow> nat \<Rightarrow> nat \<Rightarrow> nat \<Rightarrow> nat" where
  "bisect a x lo hi =
     (if lo < hi
      then (let mid = (lo + hi) div 2
            in if x < a ! mid then bisect a x lo mid else bisect a x (mid + 1) hi)
      else lo)"
  by pat_completeness auto
termination
  by (relation "measure (\<lambda>(a, x, lo, hi). hi - lo)") auto

declare bisect.simps [simp del]

definition random_choices :: "'a list \<Rightarrow> nat list \<Rightarrow> rng \<Rightarrow> error + ('a \<times> rng)" where
  "random_choices population weights g =
     (let n = length population;
          cum_weights = accumulate 0 weights
      in if length cum_weights \<noteq> n then Inl ValueError
         else if cum_weights = [] then Inl IndexError
         else let total = last cum_weights
              in if total \<le> 0 then Inl ValueError
                 else Inr (population ! bisect cum_weights (shd g mod total) 0 (n - 1),
                           stl g))"

subsection \<open>Payload collections (\<open>Kind\<close>, \<open>Payloads\<close>)\<close>

record Kind =
  weight :: nat
  payloads :: "string list"

text \<open>\<open>Payloads\<close> has one field, the list of its kinds (\<open>payloads\<close> in the source; the
  name is taken by the field of \<open>Kind\<close>).\<close>

datatype Payloads = Payloads (kinds: "Kind list")

definition weights :: "Payloads \<Rightarrow> nat list" where
  "weights self = map weight (kinds self)"

definition payload :: "Payloads \<Rightarrow> rng \<Rightarrow> error + (string \<times> rng)" where
  "payload self g =
     (case random_choices (kinds self) (weights self) g of
        Inl e \<Rightarrow> Inl e
      | Inr (p, g1) \<Rightarrow> random_choice (payloads p) g1)"

subsection \<open>The regular expression of \<open>alter_type\<close>\<close>

text \<open>
  \<open>alter_type\<close> uses one pattern, \<^verbatim>\<open>\[[^\[]*\]$\<close>, with \<open>re.findall\<close> and
  \<open>re.sub\<close>. The matcher below follows Python's backtracking engine for this pattern.
  Every function receives the rest of the subject from the current position on.

  \<open>at_dollar\<close> is the anchor \<^verbatim>\<open>$\<close> without the MULTILINE flag: it holds at the end of the
  subject and just before a line feed that is the last character of the subject.
\<close>

definition at_dollar :: "string \<Rightarrow> bool" where
  "at_dollar rest = (rest = [] \<or> rest = [CHR 0x0A])"

text \<open>\<open>closes\<close> is the tail \<^verbatim>\<open>\]$\<close> of the pattern at the current position.\<close>

definition closes :: "string \<Rightarrow> bool" where
  "closes rest = (case rest of [] \<Rightarrow> False | c # r \<Rightarrow> c = CHR '']'' \<and> at_dollar r)"

text \<open>
  The greedy star \<^verbatim>\<open>[^\[]*\<close> first takes as many characters as it can and gives them
  back one at a time until the tail of the pattern matches: \<open>backtrack rest k\<close> tries the
  star with \<open>k\<close> characters, then with fewer. It returns the number of characters of the
  star in the match that is found.
\<close>

fun backtrack :: "string \<Rightarrow> nat \<Rightarrow> nat option" where
  "backtrack rest 0 = (if closes rest then Some 0 else None)"
| "backtrack rest (Suc k) =
     (if closes (drop (Suc k) rest) then Some (Suc k) else backtrack rest k)"

text \<open>\<open>match_here s\<close> is the length of the match of the whole pattern that starts at the
  first character of \<open>s\<close>, if there is one.\<close>

definition match_here :: "string \<Rightarrow> nat option" where
  "match_here s =
     (case s of
        [] \<Rightarrow> None
      | c # rest \<Rightarrow>
          if c = CHR ''[''
          then (case backtrack rest (length (takeWhile (\<lambda>x. x \<noteq> CHR ''['') rest)) of
                  None \<Rightarrow> None
                | Some k \<Rightarrow> Some (k + 2))
          else None)"

lemma match_here_pos: "match_here s = Some n \<Longrightarrow> 0 < n"
  by (auto simp: match_here_def split: list.splits if_splits option.splits)

text \<open>\<open>re.findall\<close>: the non-overlapping matches, found from left to right.\<close>

function re_findall :: "string \<Rightarrow> string list" where
  "re_findall [] = []"
| "re_findall (c # s) =
     (case match_here (c # s) of
        None \<Rightarrow> re_findall s
      | Some n \<Rightarrow> take n (c # s) # re_findall (drop n (c # s)))"
  by pat_completeness auto
termination
  by (relation "measure length") (auto dest: match_here_pos)

text \<open>\<open>re.sub\<close> with the empty replacement: every match is removed.\<close>

function re_sub :: "string \<Rightarrow> string" where
  "re_sub [] = []"
| "re_sub (c # s) =
     (case match_here (c # s) of
        None \<Rightarrow> c # re_sub s
      | Some n \<Rightarrow> re_sub (drop n (c # s)))"
  by pat_completeness auto
termination
  by (relation "measure length") (auto dest: match_here_pos)

subsection \<open>The strategies without random draws\<close>

definition skip_param :: "string \<Rightarrow> string list \<Rightarrow> param" where
  "skip_param param val = (param, val)"

definition alter_type :: "string \<Rightarrow> string list \<Rightarrow> param" where
  "alter_type param val =
     (if length (re_findall param) > 0 then (re_sub param, val)
      else (param @ ''[]'', val))"

subsection \<open>The strategies that draw\<close>

definition FREQ_XSS_PAYLOAD :: nat where "FREQ_XSS_PAYLOAD = 30"
definition FREQ_TYPE_ALTER :: nat where "FREQ_TYPE_ALTER = 10"
definition FREQ_RAND_TEXT :: nat where "FREQ_RAND_TEXT = 50"
definition FREQ_SYNTAX_TOKEN :: nat where "FREQ_SYNTAX_TOKEN = 10"
definition FREQ_SKIP_PARAM :: nat where "FREQ_SKIP_PARAM = 10"

definition HEADS :: nat where "HEADS = 1"
definition TAILS :: nat where "TAILS = 2"

text \<open>\<open>string.ascii_lowercase\<close>, \<open>string.punctuation\<close> and \<open>string.digits\<close>.\<close>

definition ascii_lowercase :: string where
  "ascii_lowercase = ''abcdefghijklmnopqrstuvwxyz''"

definition punctuation :: string where
  "punctuation =
     [CHR 0x21, CHR 0x22, CHR 0x23, CHR 0x24, CHR 0x25, CHR 0x26, CHR 0x27, CHR 0x28,
      CHR 0x29, CHR 0x2A, CHR 0x2B, CHR 0x2C, CHR 0x2D, CHR 0x2E, CHR 0x2F,
      CHR 0x3A, CHR 0x3B, CHR 0x3C, CHR 0x3D, CHR 0x3E, CHR 0x3F, CHR 0x40,
      CHR 0x5B, CHR 0x5C, CHR 0x5D, CHR 0x5E, CHR 0x5F, CHR 0x60,
      CHR 0x7B, CHR 0x7C, CHR 0x7D, CHR 0x7E]"

definition digits :: string where
  "digits = ''0123456789''"

definition alphabet :: string where
  "alphabet = ascii_lowercase @ punctuation @ digits"

text \<open>\<open>random_string(length)\<close>: \<open>random.choices\<close> without weights takes one draw for each
  of the \<open>length\<close> characters.\<close>

definition random_string :: "nat \<Rightarrow> rng \<Rightarrow> string \<times> rng" where
  "random_string len g =
     (map (\<lambda>x. alphabet ! (x mod length alphabet)) (stake len g), sdrop len g)"

text \<open>A strategy takes a name, its values and the random source; it returns the new
  pair and the rest of the source, or the exception it raises. The local \<open>payload\<close> of
  the source is \<open>tok\<close> below.\<close>

type_synonym strategy = "string \<Rightarrow> string list \<Rightarrow> rng \<Rightarrow> error + (param \<times> rng)"

definition add_random_text :: strategy where
  "add_random_text param val g =
     (let (len, g1) = randrange 1 6 g;
          (tok, g2) = random_string len g1;
          (coin, g3) = randint HEADS TAILS g2
      in if coin = HEADS then Inr ((param, map (\<lambda>x. tok @ x) val), g3)
         else Inr ((param, map (\<lambda>x. x @ tok) val), g3))"

text \<open>
  The mutator object holds the two payload collections. Their weights are literals of
  \<open>__init__\<close>; the payload lists are read from files, which are arguments here (the
  non-empty lines of each file).
\<close>

record Mutator =
  xss_payloads :: Payloads
  syntax_tokens :: Payloads

definition Mutator_init ::
  "string list \<Rightarrow> string list \<Rightarrow> string list \<Rightarrow> string list \<Rightarrow> string list \<Rightarrow> string list
   \<Rightarrow> Mutator" where
  "Mutator_init attributes dirty well_formed html php js =
     \<lparr>xss_payloads = Payloads
        [\<lparr>weight = 30, payloads = attributes\<rparr>,
         \<lparr>weight = 50, payloads = dirty\<rparr>,
         \<lparr>weight = 20, payloads = well_formed\<rparr>],
      syntax_tokens = Payloads
        [\<lparr>weight = 30, payloads = html\<rparr>,
         \<lparr>weight = 30, payloads = php\<rparr>,
         \<lparr>weight = 40, payloads = js\<rparr>]\<rparr>"

definition add_syntax_token :: "Mutator \<Rightarrow> strategy" where
  "add_syntax_token self param val g =
     (case payload (syntax_tokens self) g of
        Inl e \<Rightarrow> Inl e
      | Inr (tok, g1) \<Rightarrow>
          (let (coin, g2) = randint HEADS TAILS g1
           in if coin = HEADS then Inr ((param, map (\<lambda>x. tok @ x) val), g2)
              else Inr ((param, map (\<lambda>x. x @ tok) val), g2)))"

definition add_xss_payload :: "Mutator \<Rightarrow> strategy" where
  "add_xss_payload self param val g =
     (case payload (xss_payloads self) g of
        Inl e \<Rightarrow> Inl e
      | Inr (tok, g1) \<Rightarrow>
          (let (coin, g2) = randint HEADS TAILS g1
           in if coin = HEADS then Inr ((param, map (\<lambda>x. tok @ x) val), g2)
              else Inr ((param, map (\<lambda>x. x @ tok) val), g2)))"

subsection \<open>The registry of strategies (\<open>MutateFunc\<close>, \<open>MutateFunctions\<close>)\<close>

datatype MutateFunc = MutateFunc (func_id: nat) (func_weight: nat) (func: strategy)

datatype MutateFunctions = MutateFunctions (funcs: "MutateFunc list")

text \<open>The property \<open>functions\<close> of the source is \<open>functions_of\<close> (the name is a keyword).\<close>

definition functions_of :: "MutateFunctions \<Rightarrow> strategy list" where
  "functions_of self = map func (funcs self)"

definition func_weights :: "MutateFunctions \<Rightarrow> nat list" where
  "func_weights self = map func_weight (funcs self)"

definition mutator :: "MutateFunctions \<Rightarrow> rng \<Rightarrow> error + (strategy \<times> rng)" where
  "mutator self g = random_choices (functions_of self) (func_weights self) g"

text \<open>\<open>skip_param\<close> and \<open>alter_type\<close> take no draw and raise nothing.\<close>

definition no_draw :: "(string \<Rightarrow> string list \<Rightarrow> param) \<Rightarrow> strategy" where
  "no_draw f param val g = Inr (f param val, g)"

definition per_param_mutators :: "Mutator \<Rightarrow> MutateFunctions" where
  "per_param_mutators self =
     MutateFunctions
       [MutateFunc 1 FREQ_XSS_PAYLOAD (add_xss_payload self),
        MutateFunc 2 FREQ_TYPE_ALTER (no_draw alter_type),
        MutateFunc 3 FREQ_RAND_TEXT add_random_text,
        MutateFunc 4 FREQ_SYNTAX_TOKEN (add_syntax_token self),
        MutateFunc 5 FREQ_SKIP_PARAM (no_draw skip_param)]"

subsection \<open>What the pattern matches\<close>

text \<open>
  The pattern matches a bracket group \<open>[b]\<close> whose content \<open>b\<close> has no opening bracket
  and which is followed by a remainder \<open>e\<close> where \<open>at_dollar\<close> holds: nothing, or a single
  final line feed.
\<close>

lemma backtrack_hit: "closes (drop k rest) \<Longrightarrow> backtrack rest k = Some k"
  by (cases k) auto

lemma backtrack_none: "(\<forall>j\<le>k. \<not> closes (drop j rest)) \<Longrightarrow> backtrack rest k = None"
  by (induction k) auto

lemma backtrack_Some: "backtrack rest k0 = Some k \<Longrightarrow> k \<le> k0 \<and> closes (drop k rest)"
  by (induction k0) (auto split: if_splits)

lemma closes_simps [simp]:
  "closes [] = False"
  "closes (c # r) = (c = CHR '']'' \<and> at_dollar r)"
  by (simp_all add: closes_def)

lemma takeWhile_all: "CHR ''['' \<notin> set b \<Longrightarrow> e = [] \<or> e = [CHR 0x0A] \<Longrightarrow>
  takeWhile (\<lambda>x. x \<noteq> CHR ''['') (b @ CHR '']'' # e) = b @ CHR '']'' # e"
  by auto

lemma match_here_group:
  assumes "CHR ''['' \<notin> set b" and "at_dollar e"
  shows "match_here (CHR ''['' # b @ CHR '']'' # e) = Some (length b + 2)"
proof -
  let ?rest = "b @ CHR '']'' # e"
  have e: "e = [] \<or> e = [CHR 0x0A]" using assms(2) by (simp add: at_dollar_def)
  have tw: "length (takeWhile (\<lambda>x. x \<noteq> CHR ''['') ?rest) = length b + 1 + length e"
    by (simp only: takeWhile_all[OF assms(1) e]) simp
  have "backtrack ?rest (length b + 1 + length e) = Some (length b)"
  proof (cases "e = []")
    case True
    have "backtrack ?rest (Suc (length b)) = backtrack ?rest (length b)"
      using True by simp
    also have "\<dots> = Some (length b)" by (rule backtrack_hit) (simp add: assms(2))
    finally show ?thesis using True by simp
  next
    case False
    then have e': "e = [CHR 0x0A]" using e by simp
    have "backtrack ?rest (Suc (Suc (length b))) = backtrack ?rest (Suc (length b))"
      using e' by simp
    also have "\<dots> = backtrack ?rest (length b)" using e' by simp
    also have "\<dots> = Some (length b)" by (rule backtrack_hit) (simp add: assms(2))
    finally show ?thesis using e' by simp
  qed
  then show ?thesis by (simp add: match_here_def tw)
qed

lemma match_here_Some:
  assumes "match_here s = Some n"
  shows "\<exists>b e. s = CHR ''['' # b @ CHR '']'' # e \<and> CHR ''['' \<notin> set b \<and> at_dollar e \<and> n = length b + 2"
proof -
  from assms obtain rest k where s: "s = CHR ''['' # rest"
    and bt: "backtrack rest (length (takeWhile (\<lambda>x. x \<noteq> CHR ''['') rest)) = Some k"
    and n: "n = k + 2"
    by (auto simp: match_here_def split: list.splits if_splits option.splits)
  from backtrack_Some[OF bt] have k: "k \<le> length (takeWhile (\<lambda>x. x \<noteq> CHR ''['') rest)"
    and c: "closes (drop k rest)" by auto
  from c obtain e where d: "drop k rest = CHR '']'' # e" and e: "at_dollar e"
    by (cases "drop k rest") auto
  have "take k rest = take k (takeWhile (\<lambda>x. x \<noteq> CHR ''['') rest)"
    using k by (metis takeWhile_dropWhile_id take_append diff_is_0_eq take_0 append_Nil2)
  then have nb: "CHR ''['' \<notin> set (take k rest)"
    by (metis in_set_takeD set_takeWhileD)
  have len: "length (take k rest) = k" using d by (cases "k \<le> length rest") auto
  have "rest = take k rest @ CHR '']'' # e" using d by (metis append_take_drop_id)
  with s nb e n len show ?thesis by metis
qed

lemma at_dollar_long [simp]: "\<not> at_dollar (x @ CHR ''['' # y # t)"
  by (cases x) (auto simp: at_dollar_def)

lemma match_here_inner:
  "match_here (c # pre @ CHR ''['' # y # t) = None"
proof (cases "c = CHR ''[''")
  case False
  then show ?thesis by (simp add: match_here_def)
next
  case True
  let ?rest = "pre @ CHR ''['' # y # t"
  let ?k0 = "length (takeWhile (\<lambda>x. x \<noteq> CHR ''['') ?rest)"
  have k0: "?k0 \<le> length pre" by (simp add: takeWhile_append length_takeWhile_le)
  have "\<not> closes (drop j ?rest)" if "j \<le> length pre" for j
  proof (cases "drop j pre")
    case Nil
    then show ?thesis using that by simp
  next
    case (Cons d ds)
    then show ?thesis using that by simp
  qed
  then have "backtrack ?rest ?k0 = None"
    using k0 by (intro backtrack_none) auto
  then show ?thesis using True by (simp add: match_here_def)
qed

lemma re_sub_group:
  assumes "CHR ''['' \<notin> set b" and "at_dollar e"
  shows "re_sub (pre @ CHR ''['' # b @ CHR '']'' # e) = pre @ e"
proof (induction pre)
  case Nil
  have "re_sub e = e" using assms(2) by (auto simp: at_dollar_def match_here_def)
  then show ?case using match_here_group[OF assms] by simp
next
  case (Cons c pre)
  have "match_here (c # pre @ CHR ''['' # b @ CHR '']'' # e) = None"
    by (cases b) (simp_all only: append_Nil append_Cons match_here_inner)
  then show ?case using Cons by simp
qed

lemma re_findall_group:
  assumes "CHR ''['' \<notin> set b" and "at_dollar e"
  shows "re_findall (pre @ CHR ''['' # b @ CHR '']'' # e) = [CHR ''['' # b @ '']'']"
proof (induction pre)
  case Nil
  have "re_findall e = []" using assms(2) by (auto simp: at_dollar_def match_here_def)
  then show ?case using match_here_group[OF assms] by simp
next
  case (Cons c pre)
  have "match_here (c # pre @ CHR ''['' # b @ CHR '']'' # e) = None"
    by (cases b) (simp_all only: append_Nil append_Cons match_here_inner)
  then show ?case using Cons by simp
qed

lemma re_findall_Cons:
  "re_findall s \<noteq> [] \<Longrightarrow> \<exists>pre t n. s = pre @ t \<and> match_here t = Some n"
proof (induction s rule: re_findall.induct)
  case 1
  then show ?case by simp
next
  case (2 c s)
  show ?case
  proof (cases "match_here (c # s)")
    case None
    with 2 obtain pre t n where "s = pre @ t" "match_here t = Some n" by auto
    then have "c # s = (c # pre) @ t \<and> match_here t = Some n" by simp
    then show ?thesis by blast
  next
    case (Some n)
    then have "c # s = [] @ (c # s) \<and> match_here (c # s) = Some n" by simp
    then show ?thesis by blast
  qed
qed

lemma re_findall_iff:
  "re_findall s \<noteq> [] \<longleftrightarrow>
    (\<exists>pre b e. s = pre @ CHR ''['' # b @ CHR '']'' # e \<and> CHR ''['' \<notin> set b \<and> at_dollar e)"
proof
  assume "re_findall s \<noteq> []"
  then obtain pre t n where "s = pre @ t" "match_here t = Some n"
    using re_findall_Cons by blast
  with match_here_Some[of t n] show "\<exists>pre b e. s = pre @ CHR ''['' # b @ CHR '']'' # e \<and> CHR ''['' \<notin> set b \<and> at_dollar e"
    by blast
next
  assume "\<exists>pre b e. s = pre @ CHR ''['' # b @ CHR '']'' # e \<and> CHR ''['' \<notin> set b \<and> at_dollar e"
  then show "re_findall s \<noteq> []" using re_findall_group by auto
qed

lemma re_findall_no_open: "CHR ''['' \<notin> set s \<Longrightarrow> re_findall s = []"
  by (induction s) (auto simp: match_here_def)


subsection \<open>\<open>alter_type\<close> on the two shapes of a name\<close>

lemma alter_type_strip:
  assumes "CHR ''['' \<notin> set b"
  shows "alter_type (pre @ CHR ''['' # b @ '']'') val = (pre, val)"
proof -
  have d: "at_dollar []" by (simp add: at_dollar_def)
  show ?thesis
    using re_findall_group[OF assms d, of pre] re_sub_group[OF assms d, of pre]
    by (simp add: alter_type_def)
qed

lemma alter_type_append:
  assumes "re_findall name = []"
  shows "alter_type name val = (name @ ''[]'', val)"
  using assms by (simp add: alter_type_def)

lemma alter_type_twice_general:
  assumes "re_findall p = []"
  shows "alter_type (fst (alter_type p vs)) (snd (alter_type p vs)) = (p, vs)"
proof -
  have "alter_type p vs = (p @ CHR ''['' # [] @ '']'', vs)"
    using assms by (simp add: alter_type_def)
  moreover have "alter_type (p @ CHR ''['' # [] @ '']'') vs = (p, vs)"
    by (rule alter_type_strip) simp
  ultimately show ?thesis by simp
qed

text \<open>
  Claim C3. \<open>alter_type\<close> strips a bracket group that stands at the very end of the name
  and appends \<open>[]\<close> to every other name; it raises on no name (the model is a total
  function without an error result). The claim's examples \<open>foo[2]\<close> and \<open>foo[]\<close> fix the
  reading of the pattern: the content of the group may be empty. Lemma
  \<open>alter_type_strip\<close> is the first half of the claim and holds on the code. The second half
  fails on the code for a name that ends with a bracket group followed by one line feed:
  the name \<open>foo[1]\<close> plus a line feed does not end with a bracket group (its last character
  is the line feed), so the claim appends \<open>[]\<close>; the code removes \<open>[1]\<close> from the middle and
  keeps the line feed, because \<^verbatim>\<open>$\<close> also matches before a final line feed.
\<close>

theorem alter_type_final_line_feed:
  "alter_type (''foo[1]'' @ [CHR 0x0A]) [''v''] = (''foo'' @ [CHR 0x0A], [''v''])
   \<and> alter_type (''foo[1]'' @ [CHR 0x0A]) [''v'']
       \<noteq> ((''foo[1]'' @ [CHR 0x0A]) @ ''[]'', [''v''])
   \<and> last (''foo[1]'' @ [CHR 0x0A]) \<noteq> CHR '']''"
proof -
  have n: "CHR ''['' \<notin> set ''1''" by simp
  have d: "at_dollar [CHR 0x0A]" by (simp add: at_dollar_def)
  have "alter_type (''foo'' @ CHR ''['' # ''1'' @ CHR '']'' # [CHR 0x0A]) [''v'']
        = (''foo'' @ [CHR 0x0A], [''v''])"
    using re_findall_group[OF n d, of "''foo''"] re_sub_group[OF n d, of "''foo''"]
    by (simp add: alter_type_def)
  then show ?thesis by simp
qed

text \<open>
  Claim C7. Applying \<open>alter_type\<close> twice to a pair whose name is bracket-free returns the
  pair: the first application appends \<open>[]\<close>, the second strips it. The theorem asks only
  that the name has no opening bracket, which every bracket-free name satisfies.
\<close>

theorem alter_type_twice:
  assumes "CHR ''['' \<notin> set p"
  shows "alter_type (fst (alter_type p vs)) (snd (alter_type p vs)) = (p, vs)"
  using assms by (intro alter_type_twice_general re_findall_no_open)

theorem alter_type_twice_witness:
  "CHR ''['' \<notin> set ''p''
   \<and> alter_type ''p'' [''1''] = (''p[]'', [''1''])
   \<and> alter_type (fst (alter_type ''p'' [''1''])) (snd (alter_type ''p'' [''1''])) = (''p'', [''1''])"
proof -
  have h: "CHR ''['' \<notin> set ''p''" by simp
  have a: "alter_type ''p'' [''1''] = (''p[]'', [''1''])"
    by (rule alter_type_append[of "''p''", simplified]) (simp add: match_here_def)
  show ?thesis using h a alter_type_twice[OF h, of "[''1'']"] by simp
qed

subsection \<open>Nodes and the store\<close>

text \<open>
  Nodes and their parameter dicts are mutable Python objects that the functions below
  share and update in place, so they live in a store, at addresses. A node refers to
  its \<open>params\<close> dict, which maps each of the two methods to a parameter dict; a
  parameter dict maps a name to its list of values, in insertion order with each name
  once. No statement of the module writes into a list of values, so the lists are
  values here.

  The store is total: an address that was never allocated holds an arbitrary object.
  \<open>next_addr\<close> is the first address that is not in use; all the objects of a program
  state lie below it (\<open>allocated\<close>).
\<close>

text \<open>
  Modelled from the spec: \<open>HTTPMethod\<close> (types.py) is imported by the module and is not
  among the sources. The spec gives the two methods, which also name the two
  parameter groups of a node.
\<close>

datatype HTTPMethod = GET | POST

type_synonym addr = nat

type_synonym pdict = "(string \<times> string list) list"

text \<open>
  Modelled from the spec: the class \<open>Node\<close> (node.py) is imported by the module and is not
  among the sources. The spec gives its fields: url, method, params (a mapping keyed by
  the two parameter groups), size and the parent. The fields \<open>method\<close> and \<open>size\<close> are \<open>node_method\<close> and \<open>node_size\<close>.
\<close>

record Node =
  url :: string
  node_method :: HTTPMethod
  params :: addr
  node_size :: nat
  parent_request :: "addr option"

record heap =
  nodes :: "addr \<Rightarrow> Node"
  params_dicts :: "addr \<Rightarrow> HTTPMethod \<Rightarrow> addr"
  dicts :: "addr \<Rightarrow> pdict"
  next_addr :: addr

text \<open>\<open>node.params[t]\<close>, the parameter dict object, and its items.\<close>

definition node_params :: "heap \<Rightarrow> addr \<Rightarrow> HTTPMethod \<Rightarrow> addr" where
  "node_params h n t = params_dicts h (params (nodes h n)) t"

definition items :: "heap \<Rightarrow> addr \<Rightarrow> HTTPMethod \<Rightarrow> pdict" where
  "items h n t = dicts h (node_params h n t)"

definition allocated :: "heap \<Rightarrow> addr \<Rightarrow> bool" where
  "allocated h n =
     (n < next_addr h \<and> params (nodes h n) < next_addr h
      \<and> node_params h n GET < next_addr h \<and> node_params h n POST < next_addr h)"

subsection \<open>Python's dict operations on a parameter dict\<close>

text \<open>\<open>d[k] = v\<close>: an existing name keeps its place, a new name goes to the end.\<close>

fun dict_setitem :: "pdict \<Rightarrow> string \<Rightarrow> string list \<Rightarrow> pdict" where
  "dict_setitem [] k v = [(k, v)]"
| "dict_setitem ((k', v') # d) k v =
     (if k' = k then (k, v) # d else (k', v') # dict_setitem d k v)"

text \<open>\<open>del d[k]\<close>: KeyError when the name is absent.\<close>

definition dict_delitem :: "pdict \<Rightarrow> string \<Rightarrow> error + pdict" where
  "dict_delitem d k =
     (if k \<in> set (map fst d) then Inr (filter (\<lambda>kv. fst kv \<noteq> k) d) else Inl KeyError)"

text \<open>\<open>d.update(other)\<close>: every item of \<open>other\<close> is set in \<open>d\<close>, in the order of \<open>other\<close>.\<close>

fun dict_update :: "pdict \<Rightarrow> pdict \<Rightarrow> pdict" where
  "dict_update d [] = d"
| "dict_update d ((k, v) # other) = dict_update (dict_setitem d k v) other"

text \<open>
  \<open>copy.deepcopy\<close> of a parameter dict: a new dict object with the same items.
  \<open>copy.deepcopy\<close> of a \<open>params\<close> dict: a new \<open>params\<close> dict whose groups are new parameter
  dicts; as \<open>deepcopy\<close> keeps sharing, two groups that are one object in the original
  are one object in the copy.
\<close>

definition deepcopy_dict :: "addr \<Rightarrow> heap \<Rightarrow> addr \<times> heap" where
  "deepcopy_dict d h =
     (next_addr h,
      h\<lparr>dicts := (dicts h)(next_addr h := dicts h d), next_addr := next_addr h + 1\<rparr>)"

definition deepcopy_params :: "addr \<Rightarrow> heap \<Rightarrow> addr \<times> heap" where
  "deepcopy_params p h =
     (let a = next_addr h;
          (c_get, h1) = deepcopy_dict (params_dicts h p GET) (h\<lparr>next_addr := a + 1\<rparr>);
          (c_post, h2) =
             (if params_dicts h p POST = params_dicts h p GET then (c_get, h1)
              else deepcopy_dict (params_dicts h p POST) h1)
      in (a, h2\<lparr>params_dicts := (params_dicts h2)
                   (a := (\<lambda>t. case t of GET \<Rightarrow> c_get | POST \<Rightarrow> c_post))\<rparr>))"

text \<open>
  Modelled from the spec: the constructor of \<open>Node\<close> is in node.py, which is not among
  the sources. It builds a new node object with the url, the method and the parent it
  is given; the node has a params dict and two empty parameter groups of its own.
\<close>

definition Node_init :: "string \<Rightarrow> HTTPMethod \<Rightarrow> addr option \<Rightarrow> heap \<Rightarrow> addr \<times> heap" where
  "Node_init u m parent h =
     (let n = next_addr h
      in (n, h\<lparr>nodes := (nodes h)
                  (n := \<lparr>url = u, node_method = m, params = n + 1, node_size = 0,
                         parent_request = parent\<rparr>),
               params_dicts := (params_dicts h)
                  (n + 1 := (\<lambda>t. case t of GET \<Rightarrow> n + 2 | POST \<Rightarrow> n + 3)),
               dicts := (dicts h)(n + 2 := [], n + 3 := []),
               next_addr := n + 4\<rparr>))"

text \<open>
  Modelled from the spec: \<open>calculate_param_size\<close> is a method of \<open>Node\<close> in node.py, which
  is not among the sources. It sets the size of the node to the sum of the parameter
  counts of its two groups.
\<close>

definition calculate_param_size :: "addr \<Rightarrow> heap \<Rightarrow> heap" where
  "calculate_param_size n h =
     h\<lparr>nodes := (nodes h)
         (n := (nodes h n)\<lparr>node_size := length (items h n GET) + length (items h n POST)\<rparr>)\<rparr>"

subsection \<open>The crossover (\<open>select_favourable_node\<close>, \<open>merge_nodes\<close>, \<open>cross_over\<close>)\<close>

text \<open>\<open>ceil(len_params_self / 2)\<close>: the true division of a length by two, rounded up.\<close>

definition ceil_half :: "nat \<Rightarrow> nat" where
  "ceil_half n = nat \<lceil>real n / 2\<rceil>"

text \<open>The loop of \<open>select_favourable_node\<close> over the rest of \<open>node_list\<close>, with the current
  \<open>cross_node\<close>; \<open>break\<close> returns at once.\<close>

fun select_loop :: "heap \<Rightarrow> addr \<Rightarrow> HTTPMethod \<Rightarrow> nat \<Rightarrow> addr \<Rightarrow> addr list \<Rightarrow> addr" where
  "select_loop h start_node cross_type len_params_self cross_node [] = cross_node"
| "select_loop h start_node cross_type len_params_self cross_node (node # rest) =
     (let len_params_node = length (items h node cross_type)
      in if len_params_node > length (items h cross_node cross_type)
            \<and> url (nodes h node) \<noteq> url (nodes h start_node)
         then node
         else if len_params_node \<ge> ceil_half len_params_self
         then select_loop h start_node cross_type len_params_self node rest
         else select_loop h start_node cross_type len_params_self cross_node rest)"

definition select_favourable_node ::
  "heap \<Rightarrow> addr list \<Rightarrow> addr \<Rightarrow> HTTPMethod \<Rightarrow> addr option" where
  "select_favourable_node h node_list start_node cross_type =
     (if length node_list = 0 then None
      else Some (select_loop h start_node cross_type
                   (length (items h start_node cross_type)) (node_list ! 0) node_list))"

definition merge_nodes :: "addr \<Rightarrow> addr \<Rightarrow> HTTPMethod \<Rightarrow> heap \<Rightarrow> heap" where
  "merge_nodes new_node cross_node cross_type h =
     h\<lparr>dicts := (dicts h)
         (node_params h new_node cross_type :=
            dict_update (items h new_node cross_type) (items h cross_node cross_type))\<rparr>"

text \<open>One round of the loop of \<open>cross_over\<close> over the two methods.\<close>

definition cross_over_round :: "addr list \<Rightarrow> addr \<Rightarrow> heap \<Rightarrow> HTTPMethod \<Rightarrow> heap" where
  "cross_over_round node_list new_node h param_type =
     (if node_method (nodes h new_node) = GET \<and> param_type = POST then h
      else case select_favourable_node h node_list new_node param_type of
             None \<Rightarrow> h
           | Some cross_node \<Rightarrow> merge_nodes new_node cross_node param_type h)"

definition cross_over :: "addr \<Rightarrow> addr list \<Rightarrow> addr \<Rightarrow> heap \<Rightarrow> heap" where
  "cross_over from_node node_list new_node h =
     (let (p, h1) = deepcopy_params (params (nodes h from_node)) h;
          h2 = h1\<lparr>nodes := (nodes h1)(new_node := (nodes h1 new_node)\<lparr>params := p\<rparr>)\<rparr>
      in foldl (cross_over_round node_list new_node) h2 [GET, POST])"

subsection \<open>The engine (\<open>per_param_mutate\<close>, \<open>all_param_mutate\<close>, \<open>mutate\<close>)\<close>

text \<open>
  The inner loop of \<open>per_param_mutate\<close> runs over the items of the source's dict and
  writes to the dict of \<open>new_node\<close>, which \<open>mutate\<close> has just constructed: the two are
  different objects, and the loop sees the items of the source as they were when it
  started.
\<close>

fun per_param_loop ::
  "Mutator \<Rightarrow> addr \<Rightarrow> HTTPMethod \<Rightarrow> param list \<Rightarrow> heap \<Rightarrow> rng \<Rightarrow> error + (heap \<times> rng)" where
  "per_param_loop self new_node param_type [] h g = Inr (h, g)"
| "per_param_loop self new_node param_type ((key, value) # rest) h g =
     (case mutator (per_param_mutators self) g of
        Inl e \<Rightarrow> Inl e
      | Inr (f, g1) \<Rightarrow>
          (case f key value g1 of
             Inl e \<Rightarrow> Inl e
           | Inr ((param, val), g2) \<Rightarrow>
               (let d = node_params h new_node param_type
                in case (if param \<noteq> key then dict_delitem (dicts h d) key
                         else Inr (dicts h d)) of
                     Inl e \<Rightarrow> Inl e
                   | Inr d1 \<Rightarrow>
                       per_param_loop self new_node param_type rest
                         (h\<lparr>dicts := (dicts h)(d := dict_setitem d1 param val)\<rparr>) g2)))"

text \<open>One round of the outer loop of \<open>per_param_mutate\<close>.\<close>

definition per_param_round ::
  "Mutator \<Rightarrow> addr \<Rightarrow> addr \<Rightarrow> HTTPMethod \<Rightarrow> heap \<Rightarrow> rng \<Rightarrow> error + (heap \<times> rng)" where
  "per_param_round self from_node new_node param_type h g =
     (let (c, h1) = deepcopy_dict (node_params h from_node param_type) h;
          p = params (nodes h1 new_node);
          h2 = h1\<lparr>params_dicts := (params_dicts h1)
                    (p := (params_dicts h1 p)(param_type := c))\<rparr>
      in per_param_loop self new_node param_type (items h2 from_node param_type) h2 g)"

definition per_param_mutate ::
  "Mutator \<Rightarrow> addr \<Rightarrow> addr \<Rightarrow> addr list \<Rightarrow> heap \<Rightarrow> rng \<Rightarrow> error + (heap \<times> rng)" where
  "per_param_mutate self from_node new_node node_list h g =
     (case per_param_round self from_node new_node GET h g of
        Inl e \<Rightarrow> Inl e
      | Inr (h1, g1) \<Rightarrow> per_param_round self from_node new_node POST h1 g1)"

definition all_param_mutate ::
  "Mutator \<Rightarrow> addr \<Rightarrow> addr \<Rightarrow> addr list \<Rightarrow> heap \<Rightarrow> rng \<Rightarrow> error + (heap \<times> rng)" where
  "all_param_mutate self from_node new_node node_list h g =
     (case random_choice [cross_over] g of
        Inl e \<Rightarrow> Inl e
      | Inr (f, g1) \<Rightarrow> Inr (f from_node node_list new_node h, g1))"

definition mutate ::
  "Mutator \<Rightarrow> addr \<Rightarrow> addr list \<Rightarrow> heap \<Rightarrow> rng \<Rightarrow> error + (addr \<times> heap \<times> rng)" where
  "mutate self from_node node_list h g =
     (let (new_node, h1) =
            Node_init (url (nodes h from_node)) (node_method (nodes h from_node))
              (Some from_node) h
      in case (if node_size (nodes h1 from_node) = 0
               then Inr (cross_over from_node node_list new_node h1, g)
               else case random_choices [per_param_mutate self, all_param_mutate self]
                           [80, 20] g of
                      Inl e \<Rightarrow> Inl e
                    | Inr (choice, g1) \<Rightarrow> choice from_node new_node node_list h1 g1) of
           Inl e \<Rightarrow> Inl e
         | Inr (h2, g2) \<Rightarrow> Inr (new_node, calculate_param_size new_node h2, g2))"

subsection \<open>Facts about the draws\<close>

lemma bisect_range: "lo \<le> hi \<Longrightarrow> lo \<le> bisect a x lo hi \<and> bisect a x lo hi \<le> hi"
proof (induction a x lo hi rule: bisect.induct)
  case (1 a x lo hi)
  show ?case
  proof (cases "lo < hi")
    case False
    then have "bisect a x lo hi = lo" by (subst bisect.simps) simp
    then show ?thesis using 1(3) False by simp
  next
    case True
    let ?mid = "(lo + hi) div 2"
    have m: "lo \<le> ?mid" "?mid < hi" using True by auto
    show ?thesis
    proof (cases "x < a ! ?mid")
      case l: True
      from 1(1)[OF True refl l] m have "lo \<le> bisect a x lo ?mid \<and> bisect a x lo ?mid \<le> ?mid" by simp
      then show ?thesis using True l m by (simp add: bisect.simps[of a x lo hi] Let_def)
    next
      case l: False
      from 1(2)[OF True refl l] m have "?mid + 1 \<le> bisect a x (?mid + 1) hi \<and> bisect a x (?mid + 1) hi \<le> hi" by simp
      then show ?thesis using True l m by (simp add: bisect.simps[of a x lo hi] Let_def)
    qed
  qed
qed

lemma length_accumulate [simp]: "length (accumulate acc ws) = length ws"
  by (induction ws arbitrary: acc) auto

lemma accumulate_Nil_iff [simp]: "accumulate acc ws = [] \<longleftrightarrow> ws = []"
  by (cases ws) auto

lemma last_accumulate: "ws \<noteq> [] \<Longrightarrow> last (accumulate acc ws) = acc + sum_list ws"
  by (induction ws arbitrary: acc) (auto simp: add.assoc)

lemma random_choices_Inr:
  assumes "length ws = length population" and "0 < sum_list ws"
  shows "\<exists>i<length population. random_choices population ws g = Inr (population ! i, stl g)"
proof -
  have ne: "ws \<noteq> []" using assms(2) by auto
  then have n: "0 < length population" using assms(1) by auto
  let ?i = "bisect (accumulate 0 ws) (shd g mod last (accumulate 0 ws)) 0 (length population - 1)"
  have "?i \<le> length population - 1" using bisect_range[of 0 "length population - 1"] by simp
  then have "?i < length population" using n by arith
  moreover have "random_choices population ws g = Inr (population ! ?i, stl g)"
  proof -
    have z: "\<not> sum_list ws \<le> 0" using assms(2) by linarith
    have t: "last (accumulate 0 ws) = sum_list ws" using ne by (simp add: last_accumulate)
    show ?thesis using z ne assms(1) unfolding random_choices_def Let_def t by simp
  qed
  ultimately show ?thesis by blast
qed

lemma bisect_stop: "\<not> lo < hi \<Longrightarrow> bisect a x lo hi = lo"
  by (subst bisect.simps) simp

lemma bisect_step: "lo < hi \<Longrightarrow> bisect a x lo hi =
   (if x < a ! ((lo + hi) div 2) then bisect a x lo ((lo + hi) div 2) else bisect a x ((lo + hi) div 2 + 1) hi)"
  by (subst bisect.simps) (simp add: Let_def)


text \<open>
  The invariant of the data model: every kind of a collection has a payload, and the
  weights do not all vanish.
\<close>

definition well_formed :: "Payloads \<Rightarrow> bool" where
  "well_formed p = (0 < sum_list (weights p) \<and> list_all (\<lambda>k. payloads k \<noteq> []) (kinds p))"


lemma payload_drawn_kind:
  assumes "0 < sum_list (weights self)"
  shows "\<exists>i<length (kinds self).
           random_choices (kinds self) (weights self) g = Inr (kinds self ! i, stl g)
           \<and> (if payloads (kinds self ! i) = [] then payload self g = Inl IndexError
              else \<exists>s. s \<in> set (payloads (kinds self ! i)) \<and> payload self g = Inr (s, stl (stl g)))"
proof -
  have "length (weights self) = length (kinds self)" by (simp add: weights_def)
  from random_choices_Inr[OF this assms, of g] obtain i where i: "i < length (kinds self)"
    and r: "random_choices (kinds self) (weights self) g = Inr (kinds self ! i, stl g)" by blast
  have "payload self g = random_choice (payloads (kinds self ! i)) (stl g)"
    using r by (simp add: payload_def)
  then have "if payloads (kinds self ! i) = [] then payload self g = Inl IndexError
              else \<exists>s. s \<in> set (payloads (kinds self ! i)) \<and> payload self g = Inr (s, stl (stl g))"
    by (auto simp: random_choice_def)
  with i r show ?thesis by blast
qed

lemma payload_well_formed:
  assumes "well_formed self"
  shows "\<exists>s k. k \<in> set (kinds self) \<and> s \<in> set (payloads k) \<and> payload self g = Inr (s, stl (stl g))"
proof -
  from assms have w: "0 < sum_list (weights self)" and a: "list_all (\<lambda>k. payloads k \<noteq> []) (kinds self)"
    by (auto simp: well_formed_def)
  from payload_drawn_kind[OF w, of g] obtain i where i: "i < length (kinds self)"
    and c: "if payloads (kinds self ! i) = [] then payload self g = Inl IndexError
              else \<exists>s. s \<in> set (payloads (kinds self ! i)) \<and> payload self g = Inr (s, stl (stl g))"
    by blast
  have "payloads (kinds self ! i) \<noteq> []" using a i by (simp add: list_all_length)
  with c i show ?thesis by (metis nth_mem)
qed


text \<open>
  Claim C4. Sampling a collection fails whenever one of its kinds is empty. This is not
  what \<open>payload\<close> does: it has no check of the collection, and only \<open>random.choice\<close>
  raises, on the kind that was drawn. With the kinds \<open>(30, [a])\<close> and \<open>(50, [])\<close> and a
  draw that falls on the first kind, \<open>payload\<close> returns \<open>a\<close>.
\<close>

theorem payload_ignores_empty_kind:
  "payloads (kinds (Payloads [\<lparr>weight = 30, payloads = [''a'']\<rparr>,
                              \<lparr>weight = 50, payloads = []\<rparr>]) ! 1) = []
   \<and> payload (Payloads [\<lparr>weight = 30, payloads = [''a'']\<rparr>,
                        \<lparr>weight = 50, payloads = []\<rparr>]) (sconst 0)
       = Inr (''a'', sconst 0)"
  by (simp add: payload_def random_choices_def weights_def random_choice_def
      bisect_stop bisect_step Let_def)

text \<open>
  Claim C4, amended. When the weights of a collection do not all vanish, the weighted
  draw selects one kind of the collection; \<open>payload\<close> fails, with IndexError, exactly
  when that kind is empty, and otherwise returns one of the payloads of that kind,
  whatever the other kinds hold. There is one draw of each sort and no retry.
\<close>

theorem payload_fails_iff_drawn_kind_empty:
  assumes "0 < sum_list (weights self)"
  shows "\<exists>i<length (kinds self).
           random_choices (kinds self) (weights self) g = Inr (kinds self ! i, stl g)
           \<and> (if payloads (kinds self ! i) = [] then payload self g = Inl IndexError
              else \<exists>s. s \<in> set (payloads (kinds self ! i))
                       \<and> payload self g = Inr (s, stl (stl g)))"
  using assms by (rule payload_drawn_kind)

theorem payload_fails_iff_drawn_kind_empty_witness:
  "0 < sum_list (weights (Payloads [\<lparr>weight = 30, payloads = [''a'']\<rparr>,
                                    \<lparr>weight = 50, payloads = []\<rparr>]))
   \<and> payload (Payloads [\<lparr>weight = 30, payloads = [''a'']\<rparr>,
                        \<lparr>weight = 50, payloads = []\<rparr>]) (sconst 30)
       = Inl IndexError
   \<and> payload (Payloads [\<lparr>weight = 30, payloads = [''a'']\<rparr>,
                        \<lparr>weight = 50, payloads = []\<rparr>]) (sconst 29)
       = Inr (''a'', sconst 29)"
proof -
  let ?P = "Payloads [\<lparr>weight = 30, payloads = [''a'']\<rparr>, \<lparr>weight = 50, payloads = []\<rparr>]"
  have h: "0 < sum_list (weights ?P)" by (simp add: weights_def)
  show ?thesis
    using h payload_fails_iff_drawn_kind_empty[OF h, of "sconst 30"]
      payload_fails_iff_drawn_kind_empty[OF h, of "sconst 29"]
    by (simp add: payload_def random_choices_def weights_def random_choice_def
        bisect_stop bisect_step Let_def)
qed

subsection \<open>The strategies that insert a token\<close>

lemma Mutator_init_well_formed:
  assumes "attributes \<noteq> []" "dirty \<noteq> []" "wellf \<noteq> []" "html \<noteq> []" "php \<noteq> []" "js \<noteq> []"
  shows "well_formed (xss_payloads (Mutator_init attributes dirty wellf html php js))"
    and "well_formed (syntax_tokens (Mutator_init attributes dirty wellf html php js))"
  using assms by (simp_all add: well_formed_def Mutator_init_def weights_def)

lemma alphabet_length: "length alphabet = 68"
  by (simp add: alphabet_def ascii_lowercase_def punctuation_def digits_def)

lemma random_string_shape:
  "length (fst (random_string len g)) = len \<and> set (fst (random_string len g)) \<subseteq> set alphabet"
proof -
  have "alphabet ! (x mod length alphabet) \<in> set alphabet" for x
    by (rule nth_mem) (simp add: alphabet_length)
  then show ?thesis by (auto simp: random_string_def)
qed

lemma add_random_text_shape:
  "\<exists>tok front g'.
     add_random_text param val g
       = Inr ((param, map (\<lambda>x. if front then tok @ x else x @ tok) val), g')
     \<and> length tok = 1 + shd g mod 5 \<and> set tok \<subseteq> set alphabet"
proof -
  let ?len = "1 + shd g mod 5"
  let ?tok = "fst (random_string ?len (stl g))"
  let ?g2 = "snd (random_string ?len (stl g))"
  let ?front = "fst (randint HEADS TAILS ?g2) = HEADS"
  have "add_random_text param val g
       = Inr ((param, map (\<lambda>x. if ?front then ?tok @ x else x @ ?tok) val), snd (randint HEADS TAILS ?g2))"
    by (simp add: add_random_text_def randrange_def split_def Let_def)
  moreover have "length ?tok = ?len \<and> set ?tok \<subseteq> set alphabet"
    by (rule random_string_shape)
  ultimately show ?thesis by blast
qed

lemma add_syntax_token_shape:
  assumes "well_formed (syntax_tokens self)"
  shows "\<exists>tok front g'.
     add_syntax_token self param val g
       = Inr ((param, map (\<lambda>x. if front then tok @ x else x @ tok) val), g')
     \<and> (\<exists>k. k \<in> set (kinds (syntax_tokens self)) \<and> tok \<in> set (payloads k))"
proof -
  from payload_well_formed[OF assms, of g] obtain s k where k: "k \<in> set (kinds (syntax_tokens self))"
    "s \<in> set (payloads k)" and p: "payload (syntax_tokens self) g = Inr (s, stl (stl g))" by blast
  let ?front = "fst (randint HEADS TAILS (stl (stl g))) = HEADS"
  have "add_syntax_token self param val g
       = Inr ((param, map (\<lambda>x. if ?front then s @ x else x @ s) val), snd (randint HEADS TAILS (stl (stl g))))"
    using p by (simp add: add_syntax_token_def split_def Let_def)
  with k show ?thesis by blast
qed

lemma add_xss_payload_shape:
  assumes "well_formed (xss_payloads self)"
  shows "\<exists>tok front g'.
     add_xss_payload self param val g
       = Inr ((param, map (\<lambda>x. if front then tok @ x else x @ tok) val), g')
     \<and> (\<exists>k. k \<in> set (kinds (xss_payloads self)) \<and> tok \<in> set (payloads k))"
proof -
  from payload_well_formed[OF assms, of g] obtain s k where k: "k \<in> set (kinds (xss_payloads self))"
    "s \<in> set (payloads k)" and p: "payload (xss_payloads self) g = Inr (s, stl (stl g))" by blast
  let ?front = "fst (randint HEADS TAILS (stl (stl g))) = HEADS"
  have "add_xss_payload self param val g
       = Inr ((param, map (\<lambda>x. if ?front then s @ x else x @ s) val), snd (randint HEADS TAILS (stl (stl g))))"
    using p by (simp add: add_xss_payload_def split_def Let_def)
  with k show ?thesis by blast
qed


text \<open>
  Claim C6. Each of \<open>add_random_text\<close>, \<open>add_syntax_token\<close> and \<open>add_xss_payload\<close> returns
  the name unchanged and a list of as many values, every one of them the old value with
  one token \<open>tok\<close> put in front of it or behind it, the same token and the same side for
  the whole list. The token of \<open>add_random_text\<close> has a length of 1 to 5, which is one
  plus the first draw modulo five, and its characters come from the alphabet of
  lowercase letters, punctuation and digits. The two strategies that sample a
  collection return under the invariant of the data model (no empty kind), and their
  token is a payload of the collection. The statement holds for an empty list of
  values as well.
\<close>

theorem token_strategies_shape:
  assumes "well_formed (syntax_tokens self)" and "well_formed (xss_payloads self)"
  shows "(\<exists>tok front g'.
            add_random_text param val g
              = Inr ((param, map (\<lambda>x. if front then tok @ x else x @ tok) val), g')
            \<and> length (map (\<lambda>x. if front then tok @ x else x @ tok) val) = length val
            \<and> length tok = 1 + shd g mod 5 \<and> 1 \<le> length tok \<and> length tok \<le> 5
            \<and> set tok \<subseteq> set alphabet)
       \<and> (\<exists>tok front g'.
            add_syntax_token self param val g
              = Inr ((param, map (\<lambda>x. if front then tok @ x else x @ tok) val), g')
            \<and> length (map (\<lambda>x. if front then tok @ x else x @ tok) val) = length val
            \<and> (\<exists>k. k \<in> set (kinds (syntax_tokens self)) \<and> tok \<in> set (payloads k)))
       \<and> (\<exists>tok front g'.
            add_xss_payload self param val g
              = Inr ((param, map (\<lambda>x. if front then tok @ x else x @ tok) val), g')
            \<and> length (map (\<lambda>x. if front then tok @ x else x @ tok) val) = length val
            \<and> (\<exists>k. k \<in> set (kinds (xss_payloads self)) \<and> tok \<in> set (payloads k)))"
proof (intro conjI)
  from add_random_text_shape[of param val g] obtain tok front g' where
    r: "add_random_text param val g
          = Inr ((param, map (\<lambda>x. if front then tok @ x else x @ tok) val), g')"
    and l: "length tok = 1 + shd g mod 5" and a: "set tok \<subseteq> set alphabet" by blast
  have "1 \<le> length tok \<and> length tok \<le> 5" using l by simp
  with r l a show "\<exists>tok front g'.
            add_random_text param val g
              = Inr ((param, map (\<lambda>x. if front then tok @ x else x @ tok) val), g')
            \<and> length (map (\<lambda>x. if front then tok @ x else x @ tok) val) = length val
            \<and> length tok = 1 + shd g mod 5 \<and> 1 \<le> length tok \<and> length tok \<le> 5
            \<and> set tok \<subseteq> set alphabet"
    by (intro exI[of _ tok] exI[of _ front] exI[of _ g']) simp
next
  from add_syntax_token_shape[OF assms(1), of param val g]
  show "\<exists>tok front g'.
            add_syntax_token self param val g
              = Inr ((param, map (\<lambda>x. if front then tok @ x else x @ tok) val), g')
            \<and> length (map (\<lambda>x. if front then tok @ x else x @ tok) val) = length val
            \<and> (\<exists>k. k \<in> set (kinds (syntax_tokens self)) \<and> tok \<in> set (payloads k))"
    by simp
next
  from add_xss_payload_shape[OF assms(2), of param val g]
  show "\<exists>tok front g'.
            add_xss_payload self param val g
              = Inr ((param, map (\<lambda>x. if front then tok @ x else x @ tok) val), g')
            \<and> length (map (\<lambda>x. if front then tok @ x else x @ tok) val) = length val
            \<and> (\<exists>k. k \<in> set (kinds (xss_payloads self)) \<and> tok \<in> set (payloads k))"
    by simp
qed

theorem token_strategies_shape_witness:
  "well_formed (syntax_tokens (Mutator_init [''a''] [''b''] [''c''] [''<''] [''?''] [''{'']))
   \<and> well_formed (xss_payloads (Mutator_init [''a''] [''b''] [''c''] [''<''] [''?''] [''{'']))
   \<and> add_random_text ''p'' [''1'', ''2''] (sconst 0) = Inr ((''p'', [''a1'', ''a2'']), sconst 0)
   \<and> add_syntax_token (Mutator_init [''a''] [''b''] [''c''] [''<''] [''?''] [''{''])
        ''p'' [''1'', ''2''] (sconst 0) = Inr ((''p'', [''<1'', ''<2'']), sconst 0)
   \<and> add_xss_payload (Mutator_init [''a''] [''b''] [''c''] [''<''] [''?''] [''{''])
        ''p'' [''1'', ''2''] (sconst 99) = Inr ((''p'', [''1c'', ''2c'']), sconst 99)"
proof -
  let ?m = "Mutator_init [''a''] [''b''] [''c''] [''<''] [''?''] [''{'']"
  have s: "well_formed (syntax_tokens ?m)" and x: "well_formed (xss_payloads ?m)"
    by (simp_all add: Mutator_init_well_formed)
  have r: "add_random_text ''p'' [''1'', ''2''] (sconst 0)
             = Inr ((''p'', [''a1'', ''a2'']), sconst 0)"
    by (simp add: add_random_text_def randrange_def randint_def random_string_def HEADS_def
        TAILS_def alphabet_def ascii_lowercase_def)
  have t: "add_syntax_token ?m ''p'' [''1'', ''2''] (sconst 0)
             = Inr ((''p'', [''<1'', ''<2'']), sconst 0)"
    by (simp add: add_syntax_token_def Mutator_init_def payload_def random_choices_def
        weights_def random_choice_def bisect_stop bisect_step Let_def randint_def
        randrange_def HEADS_def TAILS_def)
  have u: "add_xss_payload ?m ''p'' [''1'', ''2''] (sconst 99)
             = Inr ((''p'', [''1c'', ''2c'']), sconst 99)"
    by (simp add: add_xss_payload_def Mutator_init_def payload_def random_choices_def
        weights_def random_choice_def bisect_stop bisect_step Let_def randint_def
        randrange_def HEADS_def TAILS_def)
  show ?thesis
    using s x r t u token_strategies_shape[OF s x, of "''p''" "[''1'', ''2'']" "sconst 0"]
    by simp
qed

subsection \<open>The selection of the donor\<close>

lemma ceil_half_eq: "ceil_half n = (n + 1) div 2"
  unfolding ceil_half_def by linarith

text \<open>
  The selection as the specification words it, to be compared with
  \<open>select_favourable_node\<close>: the scan keeps a donor and a flag that says that it has
  stopped. \<open>strong_condition\<close> is the first condition of the scan, \<open>weak_condition\<close> the
  second; \<open>donor_before\<close> is the donor when the scan reaches the candidate at index \<open>i\<close>.
\<close>

definition strong_condition :: "heap \<Rightarrow> addr \<Rightarrow> HTTPMethod \<Rightarrow> addr \<Rightarrow> addr \<Rightarrow> bool" where
  "strong_condition h targetNode grp donor candidate =
     (length (items h candidate grp) > length (items h donor grp)
      \<and> url (nodes h candidate) \<noteq> url (nodes h targetNode))"

definition weak_condition :: "heap \<Rightarrow> addr \<Rightarrow> HTTPMethod \<Rightarrow> addr \<Rightarrow> bool" where
  "weak_condition h targetNode grp candidate =
     (real (length (items h candidate grp))
        \<ge> of_int \<lceil>real (length (items h targetNode grp)) / 2\<rceil>)"

fun donor_step :: "heap \<Rightarrow> addr \<Rightarrow> HTTPMethod \<Rightarrow> addr \<times> bool \<Rightarrow> addr \<Rightarrow> addr \<times> bool" where
  "donor_step h targetNode grp (donor, stopped) candidate =
     (if stopped then (donor, True)
      else if strong_condition h targetNode grp donor candidate then (candidate, True)
      else if weak_condition h targetNode grp candidate then (candidate, False)
      else (donor, False))"

definition donor_before :: "heap \<Rightarrow> addr \<Rightarrow> HTTPMethod \<Rightarrow> addr list \<Rightarrow> nat \<Rightarrow> addr" where
  "donor_before h targetNode grp corpus i =
     fst (foldl (donor_step h targetNode grp) (hd corpus, False) (take i corpus))"

definition selectFavourableDonor :: "heap \<Rightarrow> addr list \<Rightarrow> addr \<Rightarrow> HTTPMethod \<Rightarrow> addr option" where
  "selectFavourableDonor h corpus targetNode grp =
     (case corpus of
        [] \<Rightarrow> None
      | first # _ \<Rightarrow> Some (fst (foldl (donor_step h targetNode grp) (first, False) corpus)))"

lemma weak_condition_iff:
  "weak_condition h t g c \<longleftrightarrow> ceil_half (length (items h t g)) \<le> length (items h c g)"
  unfolding weak_condition_def ceil_half_def by linarith

lemma foldl_stopped: "foldl (donor_step h t g) (d, True) cs = (d, True)"
  by (induction cs) auto

lemma select_loop_foldl:
  "select_loop h t g (length (items h t g)) d cs = fst (foldl (donor_step h t g) (d, False) cs)"
  by (induction cs arbitrary: d)
     (auto simp: Let_def strong_condition_def weak_condition_iff foldl_stopped)

lemma foldl_never_strong:
  "(\<forall>i<length cs. \<not> strong_condition h t g (fst (foldl (donor_step h t g) (d, False) (take i cs))) (cs ! i))
   \<Longrightarrow> foldl (donor_step h t g) (d, False) cs = (last (d # filter (weak_condition h t g) cs), False)"
proof (induction cs arbitrary: d)
  case Nil
  then show ?case by simp
next
  case (Cons c cs)
  from Cons.prems have c0: "\<not> strong_condition h t g d c" by fastforce
  let ?d = "if weak_condition h t g c then c else d"
  have st: "donor_step h t g (d, False) c = (?d, False)" using c0 by simp
  have "\<forall>i<length cs. \<not> strong_condition h t g (fst (foldl (donor_step h t g) (?d, False) (take i cs))) (cs ! i)"
  proof (intro allI impI)
    fix i assume "i < length cs"
    then have "Suc i < length (c # cs)" by simp
    from Cons.prems[rule_format, OF this] show "\<not> strong_condition h t g (fst (foldl (donor_step h t g) (?d, False) (take i cs))) (cs ! i)"
      using st by simp
  qed
  from Cons.IH[OF this] show ?case using st by simp
qed

lemma foldl_first_strong:
  assumes i: "i < length cs"
    and fire: "strong_condition h t g (fst (foldl (donor_step h t g) (d, False) (take i cs))) (cs ! i)"
    and before: "\<forall>j<i. \<not> strong_condition h t g (fst (foldl (donor_step h t g) (d, False) (take j cs))) (cs ! j)"
  shows "foldl (donor_step h t g) (d, False) cs = (cs ! i, True)"
proof -
  let ?f = "donor_step h t g"
  have "\<forall>j<length (take i cs). \<not> strong_condition h t g (fst (foldl ?f (d, False) (take j (take i cs)))) (take i cs ! j)"
    using before i by (simp add: min_def)
  from foldl_never_strong[OF this] obtain d' where pre: "foldl ?f (d, False) (take i cs) = (d', False)"
    by blast
  have split: "cs = take i cs @ cs ! i # drop (Suc i) cs" using i by (rule id_take_nth_drop)
  have "foldl ?f (d, False) cs = foldl ?f (foldl ?f (d, False) (take i cs)) (cs ! i # drop (Suc i) cs)"
    by (subst split) (simp only: foldl_append)
  also have "\<dots> = foldl ?f (?f (d', False) (cs ! i)) (drop (Suc i) cs)" using pre by simp
  also have "?f (d', False) (cs ! i) = (cs ! i, True)" using fire pre by simp
  finally show ?thesis by (simp add: foldl_stopped)
qed

lemma select_favourable_node_foldl:
  "corpus \<noteq> [] \<Longrightarrow> select_favourable_node h corpus t g
     = Some (fst (foldl (donor_step h t g) (hd corpus, False) corpus))"
  by (simp add: select_favourable_node_def select_loop_foldl hd_conv_nth)

text \<open>
  Claim C1. \<open>select_favourable_node\<close> returns none for an empty corpus. Otherwise it is
  the scan of the specification: the donor starts as the first element; the first
  candidate that has more parameters in the group than the current donor and another url
  than the target becomes the donor and ends the scan; a candidate with at least
  \<open>ceil(selfCount / 2)\<close> parameters replaces the donor and the scan goes on. So when
  the first condition never holds, the result is the last candidate that meets the
  second one, or the first element when none does; and when the first condition holds
  at an index for the first time, the result is the candidate at that index.
\<close>

theorem select_favourable_node_spec:
  "select_favourable_node h [] targetNode grp = None
   \<and> select_favourable_node h corpus targetNode grp = selectFavourableDonor h corpus targetNode grp
   \<and> (corpus \<noteq> [] \<and> (\<forall>i<length corpus.
          \<not> strong_condition h targetNode grp (donor_before h targetNode grp corpus i) (corpus ! i))
       \<longrightarrow> select_favourable_node h corpus targetNode grp
             = Some (last (hd corpus # filter (weak_condition h targetNode grp) corpus)))
   \<and> (\<forall>i<length corpus.
          strong_condition h targetNode grp (donor_before h targetNode grp corpus i) (corpus ! i)
          \<and> (\<forall>j<i. \<not> strong_condition h targetNode grp (donor_before h targetNode grp corpus j) (corpus ! j))
          \<longrightarrow> select_favourable_node h corpus targetNode grp = Some (corpus ! i))"
proof (intro conjI)
  show "select_favourable_node h [] targetNode grp = None"
    by (simp add: select_favourable_node_def)
  show "select_favourable_node h corpus targetNode grp = selectFavourableDonor h corpus targetNode grp"
  proof (cases corpus)
    case Nil
    then show ?thesis by (simp add: select_favourable_node_def selectFavourableDonor_def)
  next
    case (Cons c cs)
    then have "corpus \<noteq> []" by simp
    from select_favourable_node_foldl[OF this] Cons show ?thesis
      by (simp add: selectFavourableDonor_def)
  qed
  show "corpus \<noteq> [] \<and> (\<forall>i<length corpus.
          \<not> strong_condition h targetNode grp (donor_before h targetNode grp corpus i) (corpus ! i))
       \<longrightarrow> select_favourable_node h corpus targetNode grp
             = Some (last (hd corpus # filter (weak_condition h targetNode grp) corpus))"
  proof (intro impI, elim conjE)
    assume ne: "corpus \<noteq> []" and n: "\<forall>i<length corpus.
          \<not> strong_condition h targetNode grp (donor_before h targetNode grp corpus i) (corpus ! i)"
    from foldl_never_strong[OF n[unfolded donor_before_def]]
    show "select_favourable_node h corpus targetNode grp
             = Some (last (hd corpus # filter (weak_condition h targetNode grp) corpus))"
      using select_favourable_node_foldl[OF ne] by simp
  qed
  show "\<forall>i<length corpus.
          strong_condition h targetNode grp (donor_before h targetNode grp corpus i) (corpus ! i)
          \<and> (\<forall>j<i. \<not> strong_condition h targetNode grp (donor_before h targetNode grp corpus j) (corpus ! j))
          \<longrightarrow> select_favourable_node h corpus targetNode grp = Some (corpus ! i)"
  proof (intro allI impI, elim conjE)
    fix i assume i: "i < length corpus"
      and f: "strong_condition h targetNode grp (donor_before h targetNode grp corpus i) (corpus ! i)"
      and b: "\<forall>j<i. \<not> strong_condition h targetNode grp (donor_before h targetNode grp corpus j) (corpus ! j)"
    from i have ne: "corpus \<noteq> []" by auto
    from foldl_first_strong[OF i f[unfolded donor_before_def] b[unfolded donor_before_def]]
    show "select_favourable_node h corpus targetNode grp = Some (corpus ! i)"
      using select_favourable_node_foldl[OF ne] by simp
  qed
qed

text \<open>
  The scenario of the specification: node 0 is \<open>/x\<close> with three GET parameters, node 1 is
  \<open>/a\<close> with five, the targets are node 2 (\<open>/a\<close>) and node 3 (\<open>/t\<close>), with two each.
  Node 4 is a POST request to \<open>/p\<close> with one POST parameter, node 5 a GET request to \<open>/c\<close>
  with the GET parameters \<open>a\<close> and \<open>a[]\<close>.
\<close>

definition scenario_heap :: heap where
  "scenario_heap =
     \<lparr>nodes = (\<lambda>n.
         if n = 0 then \<lparr>url = ''/x'', node_method = GET, params = 0, node_size = 3, parent_request = None\<rparr>
         else if n = 1 then \<lparr>url = ''/a'', node_method = GET, params = 1, node_size = 5, parent_request = None\<rparr>
         else if n = 2 then \<lparr>url = ''/a'', node_method = GET, params = 2, node_size = 2, parent_request = None\<rparr>
         else if n = 3 then \<lparr>url = ''/t'', node_method = GET, params = 3, node_size = 2, parent_request = None\<rparr>
         else if n = 4 then \<lparr>url = ''/p'', node_method = POST, params = 4, node_size = 1, parent_request = None\<rparr>
         else \<lparr>url = ''/c'', node_method = GET, params = 5, node_size = 2, parent_request = None\<rparr>),
      params_dicts = (\<lambda>p t. case t of GET \<Rightarrow> 2 * p | POST \<Rightarrow> 2 * p + 1),
      dicts = (\<lambda>d.
         if d = 0 then [(''a'', [''1'']), (''b'', [''2'']), (''c'', [''3''])]
         else if d = 2 then [(''a'', [''1'']), (''b'', [''2'']), (''c'', [''3'']), (''d'', [''4'']), (''e'', [''5''])]
         else if d = 4 \<or> d = 6 then [(''id'', [''1'']), (''q'', [''x''])]
         else if d = 9 then [(''a'', [''1''])]
         else if d = 10 then [(''a'', [''1'']), (''a[]'', [''2''])]
         else []),
      next_addr = 12\<rparr>"

lemma scenario_counts:
  "length (items scenario_heap 0 GET) = 3" "length (items scenario_heap 1 GET) = 5"
  "length (items scenario_heap 2 GET) = 2" "length (items scenario_heap 3 GET) = 2"
  "url (nodes scenario_heap 0) = ''/x''" "url (nodes scenario_heap 1) = ''/a''"
  "url (nodes scenario_heap 2) = ''/a''" "url (nodes scenario_heap 3) = ''/t''"
  "length (items scenario_heap (Suc 0) GET) = 5" "url (nodes scenario_heap (Suc 0)) = ''/a''"
  by (simp_all add: scenario_heap_def items_def node_params_def)

theorem select_favourable_node_spec_witness:
  "select_favourable_node scenario_heap [0, 1] 2 GET = Some 1
   \<and> select_favourable_node scenario_heap [1, 0] 2 GET = Some 0
   \<and> select_favourable_node scenario_heap [0, 1, 0] 3 GET = Some 1"
proof -
  have w: "weak_condition scenario_heap 2 GET 0" "weak_condition scenario_heap 2 GET 1"
    "weak_condition scenario_heap 2 GET (Suc 0)"
    by (simp_all add: weak_condition_iff ceil_half_eq scenario_counts)
  have n1: "[0, 1] \<noteq> [] \<and> (\<forall>i<length [0, 1 :: nat].
          \<not> strong_condition scenario_heap 2 GET (donor_before scenario_heap 2 GET [0, 1] i) ([0, 1] ! i))"
    by (simp add: All_less_Suc donor_before_def strong_condition_def scenario_counts w)
  have n2: "[1, 0] \<noteq> [] \<and> (\<forall>i<length [1, 0 :: nat].
          \<not> strong_condition scenario_heap 2 GET (donor_before scenario_heap 2 GET [1, 0] i) ([1, 0] ! i))"
    by (simp add: All_less_Suc donor_before_def strong_condition_def scenario_counts w)
  have n3: "strong_condition scenario_heap 3 GET (donor_before scenario_heap 3 GET [0, 1, 0] 1) ([0, 1, 0] ! 1)
          \<and> (\<forall>j<1. \<not> strong_condition scenario_heap 3 GET (donor_before scenario_heap 3 GET [0, 1, 0] j) ([0, 1, 0] ! j))"
    by (simp add: donor_before_def strong_condition_def scenario_counts weak_condition_iff ceil_half_eq)
  have i3: "1 < length [0, 1, 0 :: nat]" by simp
  note t = select_favourable_node_spec
  from t[where h = scenario_heap and corpus = "[0, 1]" and targetNode = 2 and grp = GET, THEN conjunct2, THEN conjunct2, THEN conjunct1, rule_format, OF n1]
  have a: "select_favourable_node scenario_heap [0, 1] 2 GET = Some 1" by (simp add: w)
  from t[where h = scenario_heap and corpus = "[1, 0]" and targetNode = 2 and grp = GET, THEN conjunct2, THEN conjunct2, THEN conjunct1, rule_format, OF n2]
  have b: "select_favourable_node scenario_heap [1, 0] 2 GET = Some 0" by (simp add: w)
  from t[where h = scenario_heap and corpus = "[0, 1, 0]" and targetNode = 3 and grp = GET, THEN conjunct2, THEN conjunct2, THEN conjunct2, rule_format, OF i3 n3]
  have c: "select_favourable_node scenario_heap [0, 1, 0] 3 GET = Some 1" by simp
  from a b c show ?thesis by simp
qed

subsection \<open>The crossover\<close>

lemma deepcopy_params_fields:
  assumes "(c, h') = deepcopy_params p h"
  shows "c = next_addr h"
    and "nodes h' = nodes h"
    and "\<And>x. x \<noteq> c \<Longrightarrow> params_dicts h' x = params_dicts h x"
    and "\<And>x. x < next_addr h \<Longrightarrow> dicts h' x = dicts h x"
    and "\<And>t. next_addr h < params_dicts h' c t \<and> params_dicts h' c t < next_addr h'"
    and "next_addr h < next_addr h'"
    and "params_dicts h p GET \<noteq> params_dicts h p POST \<Longrightarrow> params_dicts h' c GET \<noteq> params_dicts h' c POST"
  using assms
  by (auto simp: deepcopy_params_def deepcopy_dict_def Let_def split: if_splits HTTPMethod.splits)

lemma deepcopy_params_items:
  assumes "(c, h') = deepcopy_params p h"
    and "params_dicts h p GET < next_addr h" and "params_dicts h p POST < next_addr h"
  shows "dicts h' (params_dicts h' c t) = dicts h (params_dicts h p t)"
  using assms
  by (cases t) (auto simp: deepcopy_params_def deepcopy_dict_def Let_def split: if_splits)

lemma cross_over_round_frame:
  "nodes (cross_over_round corpus new h t) = nodes h"
  "params_dicts (cross_over_round corpus new h t) = params_dicts h"
  "next_addr (cross_over_round corpus new h t) = next_addr h"
  "x \<noteq> node_params h new t \<Longrightarrow> dicts (cross_over_round corpus new h t) x = dicts h x"
  by (auto simp: cross_over_round_def merge_nodes_def split: option.splits)

lemma cross_over_round_empty [simp]: "cross_over_round [] new h t = h"
  by (simp add: cross_over_round_def select_favourable_node_def)

lemma cross_over_round_skip:
  "node_method (nodes h new) = GET \<Longrightarrow> cross_over_round corpus new h POST = h"
  by (simp add: cross_over_round_def)

text \<open>The state after the first statement of \<open>cross_over\<close>: the deep copy of the params
  of \<open>from_node\<close> is the params of \<open>new_node\<close>.\<close>

definition installed :: "addr \<Rightarrow> addr \<Rightarrow> heap \<Rightarrow> heap" where
  "installed from_node new_node h =
     (let (p, h1) = deepcopy_params (params (nodes h from_node)) h
      in h1\<lparr>nodes := (nodes h1)(new_node := (nodes h1 new_node)\<lparr>params := p\<rparr>)\<rparr>)"

lemma cross_over_installed:
  "cross_over from_node node_list new_node h
     = foldl (cross_over_round node_list new_node) (installed from_node new_node h) [GET, POST]"
  by (simp add: cross_over_def installed_def split_def Let_def)

lemma installed_props:
  assumes "allocated h from_node"
  shows "items (installed from_node new_node h) new_node t = items h from_node t"
    and "next_addr h \<le> params (nodes (installed from_node new_node h) new_node)"
    and "next_addr h < node_params (installed from_node new_node h) new_node t"
    and "node_params (installed from_node new_node h) new_node t < next_addr (installed from_node new_node h)"
    and "node_method (nodes (installed from_node new_node h) new_node) = node_method (nodes h new_node)"
    and "url (nodes (installed from_node new_node h) new_node) = url (nodes h new_node)"
    and "node_params h from_node GET \<noteq> node_params h from_node POST \<Longrightarrow>
         node_params (installed from_node new_node h) new_node GET
           \<noteq> node_params (installed from_node new_node h) new_node POST"
proof -
  obtain c h1 where d: "(c, h1) = deepcopy_params (params (nodes h from_node)) h"
    by (metis surj_pair)
  then have i: "installed from_node new_node h = h1\<lparr>nodes := (nodes h1)(new_node := (nodes h1 new_node)\<lparr>params := c\<rparr>)\<rparr>"
    by (simp add: installed_def split_def Let_def) (metis fst_conv snd_conv)
  note f = deepcopy_params_fields[OF d]
  have a: "params_dicts h (params (nodes h from_node)) GET < next_addr h"
    "params_dicts h (params (nodes h from_node)) POST < next_addr h"
    using assms by (simp_all add: allocated_def node_params_def)
  show "items (installed from_node new_node h) new_node t = items h from_node t"
    using deepcopy_params_items[OF d a, of t] by (simp add: i items_def node_params_def)
  show "next_addr h \<le> params (nodes (installed from_node new_node h) new_node)"
    using f(1) by (simp add: i)
  show "next_addr h < node_params (installed from_node new_node h) new_node t"
    using f(5)[of t] by (simp add: i node_params_def)
  show "node_params (installed from_node new_node h) new_node t < next_addr (installed from_node new_node h)"
    using f(5)[of t] by (simp add: i node_params_def)
  show "node_method (nodes (installed from_node new_node h) new_node) = node_method (nodes h new_node)"
    using f(2) by (simp add: i)
  show "url (nodes (installed from_node new_node h) new_node) = url (nodes h new_node)"
    using f(2) by (simp add: i)
  show "node_params (installed from_node new_node h) new_node GET
           \<noteq> node_params (installed from_node new_node h) new_node POST"
    if "node_params h from_node GET \<noteq> node_params h from_node POST"
    using f(7) that by (simp add: i node_params_def)
qed

lemma cross_over_empty_corpus:
  assumes "allocated h from_node"
  shows "items (cross_over from_node [] new_node h) new_node t = items h from_node t"
  using installed_props(1)[OF assms] by (simp add: cross_over_installed)

lemma cross_over_get_target_post:
  assumes m: "node_method (nodes h new_node) = GET"
    and a: "allocated h from_node"
    and d: "node_params h from_node GET \<noteq> node_params h from_node POST"
  shows "items (cross_over from_node node_list new_node h) new_node POST = items h from_node POST"
proof -
  let ?h2 = "installed from_node new_node h"
  let ?h3 = "cross_over_round node_list new_node ?h2 GET"
  have m3: "node_method (nodes ?h3 new_node) = GET"
    using installed_props(5)[OF a] m by (simp add: cross_over_round_frame)
  have "cross_over from_node node_list new_node h = ?h3"
    by (simp add: cross_over_installed cross_over_round_skip[OF m3])
  moreover have "items ?h3 new_node POST = items ?h2 new_node POST"
    using installed_props(7)[OF a d, of new_node]
    by (simp add: items_def node_params_def cross_over_round_frame)
  ultimately show ?thesis using installed_props(1)[OF a] by simp
qed

lemma scenario_node_4:
  "allocated scenario_heap 4" "items scenario_heap 4 POST = [(''a'', [''1''])]"
  "items scenario_heap 4 GET = []" "node_method (nodes scenario_heap 2) = GET"
  "node_params scenario_heap 4 GET \<noteq> node_params scenario_heap 4 POST"
  by (simp_all add: scenario_heap_def allocated_def items_def node_params_def)

text \<open>
  Claim C2. After \<open>cross_over\<close> a target whose method is GET has no entry in its POST
  group, for every source node and corpus. This fails when the source node has POST
  parameters: the first statement of \<open>cross_over\<close> copies all the params of the source
  into the target, and the loop only skips the merge of a donor's POST parameters. With
  node 4 (one POST parameter) as the source and node 2 (GET) as the target, the target
  ends with the POST parameter of the source.
\<close>

theorem cross_over_get_target_keeps_source_post:
  "node_method (nodes scenario_heap 2) = GET
   \<and> items (cross_over 4 [0, 1] 2 scenario_heap) 2 POST = [(''a'', [''1''])]
   \<and> items (cross_over 4 [0, 1] 2 scenario_heap) 2 POST \<noteq> []"
  using cross_over_get_target_post[of scenario_heap 2 4 "[0, 1]"]
  by (simp add: scenario_node_4)

text \<open>
  Claim C2, amended. For a target whose method is GET, \<open>cross_over\<close> merges no donor
  into the POST group: afterwards the POST group of the target holds the items of the
  POST group of the source, for every corpus, so it has no entry when the source has
  none. The source is a node of the store whose two groups are two dicts.
\<close>

theorem cross_over_get_target_post_group:
  assumes "node_method (nodes h new_node) = GET"
    and "allocated h from_node"
    and "node_params h from_node GET \<noteq> node_params h from_node POST"
  shows "items (cross_over from_node node_list new_node h) new_node POST = items h from_node POST"
  using assms by (rule cross_over_get_target_post)

theorem cross_over_get_target_post_group_witness:
  "node_method (nodes scenario_heap 2) = GET
   \<and> allocated scenario_heap 0
   \<and> node_params scenario_heap 0 GET \<noteq> node_params scenario_heap 0 POST
   \<and> items scenario_heap 0 POST = []
   \<and> items (cross_over 0 [0, 1] 2 scenario_heap) 2 POST = []"
proof -
  have m: "node_method (nodes scenario_heap 2) = GET"
    and a: "allocated scenario_heap 0"
    and d: "node_params scenario_heap 0 GET \<noteq> node_params scenario_heap 0 POST"
    and e: "items scenario_heap 0 POST = []"
    by (simp_all add: scenario_heap_def allocated_def items_def node_params_def)
  from cross_over_get_target_post_group[OF m a d, of "[0, 1]"] m a d e
  show ?thesis by simp
qed

text \<open>
  Claim C8. With an empty corpus \<open>cross_over\<close> leaves in every group of the target the
  items of that group of the source: the selection returns none for both groups, so
  nothing is merged, and the groups of the target are new dicts (their addresses were
  not in use before the call).
\<close>

theorem cross_over_empty_corpus_copy:
  assumes "allocated h from_node"
  shows "items (cross_over from_node [] new_node h) new_node GET = items h from_node GET
       \<and> items (cross_over from_node [] new_node h) new_node POST = items h from_node POST
       \<and> select_favourable_node (installed from_node new_node h) [] new_node GET = None
       \<and> select_favourable_node (installed from_node new_node h) [] new_node POST = None
       \<and> next_addr h < node_params (cross_over from_node [] new_node h) new_node GET
       \<and> next_addr h < node_params (cross_over from_node [] new_node h) new_node POST"
  using cross_over_empty_corpus[OF assms] installed_props(3)[OF assms]
  by (simp add: cross_over_installed select_favourable_node_def)

theorem cross_over_empty_corpus_copy_witness:
  "allocated scenario_heap 4
   \<and> items (cross_over 4 [] 2 scenario_heap) 2 GET = []
   \<and> items (cross_over 4 [] 2 scenario_heap) 2 POST = [(''a'', [''1''])]"
  using cross_over_empty_corpus_copy[of scenario_heap 4 2]
  by (simp add: scenario_node_4)

subsection \<open>The per-parameter loop\<close>

lemma keys_list_setitem:
  "map fst (dict_setitem d k v) = (if k \<in> fst ` set d then map fst d else map fst d @ [k])"
proof (induction d)
  case Nil
  then show ?case by simp
next
  case (Cons kv d)
  obtain k' v' where kv: "kv = (k', v')" by (cases kv)
  show ?case
  proof (cases "k' = k")
    case True
    then show ?thesis by (simp add: kv)
  next
    case False
    then show ?thesis using Cons by (simp add: kv)
  qed
qed

lemma keys_dict_setitem: "fst ` set (dict_setitem d k v) = insert k (fst ` set d)"
proof -
  have "set (map fst (dict_setitem d k v)) = insert k (set (map fst d))"
    by (simp only: keys_list_setitem) auto
  then show ?thesis by simp
qed

lemma length_dict_setitem_present:
  assumes "k \<in> fst ` set d" shows "length (dict_setitem d k v) = length d"
proof -
  have "length (map fst (dict_setitem d k v)) = length (map fst d)"
    using assms by (simp only: keys_list_setitem if_True)
  then show ?thesis by simp
qed

lemma length_dict_setitem_le: "length (dict_setitem d k v) \<le> Suc (length d)"
proof -
  have "length (map fst (dict_setitem d k v)) \<le> Suc (length (map fst d))"
    by (simp only: keys_list_setitem) simp
  then show ?thesis by simp
qed


lemma dict_delitem_Inr:
  assumes "k \<in> fst ` set d"
  shows "\<exists>d'. dict_delitem d k = Inr d' \<and> length d' < length d
              \<and> fst ` set d' = fst ` set d - {k}"
proof -
  let ?d = "filter (\<lambda>kv. fst kv \<noteq> k) d"
  from assms obtain b where b: "(k, b) \<in> set d" by auto
  have "length ?d < length d"
    using b by (intro length_filter_less[where x = "(k, b)"]) auto
  moreover have "fst ` set ?d = fst ` set d - {k}" by auto
  ultimately show ?thesis using assms by (simp add: dict_delitem_def)
qed

lemma registry_pick:
  "\<exists>f. f \<in> set (functions_of (per_param_mutators self))
       \<and> mutator (per_param_mutators self) g = Inr (f, stl g)"
proof -
  let ?r = "per_param_mutators self"
  have l: "length (func_weights ?r) = length (functions_of ?r)"
    by (simp add: func_weights_def functions_of_def)
  have s: "0 < sum_list (func_weights ?r)"
    by (simp add: func_weights_def per_param_mutators_def FREQ_XSS_PAYLOAD_def)
  from random_choices_Inr[OF l s, of g] show ?thesis
    unfolding mutator_def by (metis nth_mem)
qed

lemma strategy_returns:
  assumes "well_formed (syntax_tokens self)" and "well_formed (xss_payloads self)"
    and "f \<in> set (functions_of (per_param_mutators self))"
  shows "\<exists>param val g'. f key value g = Inr ((param, val), g')"
proof -
  from assms(3) consider "f = add_xss_payload self" | "f = no_draw alter_type" | "f = add_random_text"
    | "f = add_syntax_token self" | "f = no_draw skip_param"
    by (auto simp: functions_of_def per_param_mutators_def)
  then show ?thesis
  proof cases
    case 1
    then show ?thesis using add_xss_payload_shape[OF assms(2), of key "value" g] by blast
  next
    case 2
    then show ?thesis by (cases "alter_type key value") (simp add: no_draw_def)
  next
    case 3
    then show ?thesis using add_random_text_shape[of key "value" g] by blast
  next
    case 4
    then show ?thesis using add_syntax_token_shape[OF assms(1), of key "value" g] by blast
  next
    case 5
    then show ?thesis by (simp add: no_draw_def skip_param_def)
  qed
qed

lemma per_param_loop_frame:
  "per_param_loop self new t its h g = Inr (h', g') \<Longrightarrow>
     nodes h' = nodes h \<and> params_dicts h' = params_dicts h \<and> next_addr h' = next_addr h
     \<and> (\<forall>x. x \<noteq> node_params h new t \<longrightarrow> dicts h' x = dicts h x)"
proof (induction its arbitrary: h g)
  case Nil
  then show ?case by simp
next
  case (Cons kv its)
  obtain key "value" where kv: "kv = (key, value)" by (cases kv)
  from Cons.prems obtain f g1 p val g2 d1 where
    "per_param_loop self new t its
       (h\<lparr>dicts := (dicts h)(node_params h new t := dict_setitem d1 p val)\<rparr>) g2 = Inr (h', g')"
    by (auto simp: kv Let_def split: sum.splits prod.splits)
  from Cons.IH[OF this] show ?case by (simp add: node_params_def)
qed

lemma per_param_loop_returns:
  assumes wf: "well_formed (syntax_tokens self)" "well_formed (xss_payloads self)"
    and dist: "distinct (map fst its)"
    and sub: "fst ` set its \<subseteq> fst ` set (dicts h (node_params h new t))"
  shows "\<exists>h' g'. per_param_loop self new t its h g = Inr (h', g')
           \<and> length (dicts h' (node_params h new t)) \<le> length (dicts h (node_params h new t))"
  using dist sub
proof (induction its arbitrary: h g)
  case Nil
  then show ?case by simp
next
  case (Cons kv its)
  obtain key "value" where kv: "kv = (key, value)" by (cases kv)
  let ?d = "node_params h new t"
  from registry_pick[of self g] obtain f where
    f: "f \<in> set (functions_of (per_param_mutators self))"
    and pick: "mutator (per_param_mutators self) g = Inr (f, stl g)" by blast
  from strategy_returns[OF wf f, of key "value" "stl g"] obtain p val g2 where
    app: "f key value (stl g) = Inr ((p, val), g2)" by blast
  have key_in: "key \<in> fst ` set (dicts h ?d)" using Cons.prems(2) by (simp add: kv)
  have rest_in: "fst ` set its \<subseteq> fst ` set (dicts h ?d)" using Cons.prems(2) by simp
  have key_notin: "key \<notin> fst ` set its" using Cons.prems(1) by (simp add: kv)
  have dist': "distinct (map fst its)" using Cons.prems(1) by simp
  obtain d1 where d1: "(if p \<noteq> key then dict_delitem (dicts h ?d) key else Inr (dicts h ?d)) = Inr d1"
    and len1: "length (dict_setitem d1 p val) \<le> length (dicts h ?d)"
    and keys1: "fst ` set its \<subseteq> fst ` set (dict_setitem d1 p val)"
  proof (cases "p = key")
    case True
    have "length (dict_setitem (dicts h ?d) p val) \<le> length (dicts h ?d)"
      using key_in True by (simp add: length_dict_setitem_present)
    moreover have "fst ` set its \<subseteq> fst ` set (dict_setitem (dicts h ?d) p val)"
      using rest_in by (auto simp: keys_dict_setitem)
    ultimately show ?thesis using that[of "dicts h ?d"] True by simp
  next
    case False
    from dict_delitem_Inr[OF key_in] obtain d' where d': "dict_delitem (dicts h ?d) key = Inr d'"
      "length d' < length (dicts h ?d)" "fst ` set d' = fst ` set (dicts h ?d) - {key}" by blast
    have "length (dict_setitem d' p val) \<le> length (dicts h ?d)"
      using d'(2) length_dict_setitem_le[of d' p val] by linarith
    moreover have "fst ` set its \<subseteq> fst ` set (dict_setitem d' p val)"
      using rest_in key_notin d'(3) by (auto simp: keys_dict_setitem)
    ultimately show ?thesis using that[of d'] False d'(1) by simp
  qed
  let ?h1 = "h\<lparr>dicts := (dicts h)(?d := dict_setitem d1 p val)\<rparr>"
  have np: "node_params ?h1 new t = ?d" by (simp add: node_params_def)
  have step: "per_param_loop self new t (kv # its) h g = per_param_loop self new t its ?h1 g2"
    using pick app d1 by (simp add: kv Let_def)
  have sub1: "fst ` set its \<subseteq> fst ` set (dicts ?h1 (node_params ?h1 new t))"
    using keys1 by (simp add: np)
  from Cons.IH[OF dist' sub1, of g2] obtain h' g' where
    r: "per_param_loop self new t its ?h1 g2 = Inr (h', g')"
    and l: "length (dicts h' (node_params ?h1 new t)) \<le> length (dicts ?h1 (node_params ?h1 new t))"
    by blast
  have "length (dicts h' ?d) \<le> length (dicts h ?d)" using l len1 by (simp add: np)
  with r step show ?case by simp
qed


lemma per_param_round_frame:
  assumes "per_param_round self from_node new_node t h g = Inr (h', g')"
  shows "nodes h' = nodes h" and "next_addr h' = Suc (next_addr h)"
    and "\<And>x. x \<noteq> params (nodes h new_node) \<Longrightarrow> params_dicts h' x = params_dicts h x"
    and "\<And>x. x < next_addr h \<Longrightarrow> dicts h' x = dicts h x"
    and "node_params h' new_node t = next_addr h"
    and "\<And>t'. t' \<noteq> t \<Longrightarrow> node_params h' new_node t' = node_params h new_node t'"
proof -
  let ?c = "next_addr h"
  let ?h1 = "h\<lparr>dicts := (dicts h)(?c := dicts h (node_params h from_node t)), next_addr := ?c + 1\<rparr>"
  let ?p = "params (nodes h new_node)"
  let ?h2 = "?h1\<lparr>params_dicts := (params_dicts ?h1)(?p := (params_dicts ?h1 ?p)(t := ?c))\<rparr>"
  have r: "per_param_loop self new_node t (items ?h2 from_node t) ?h2 g = Inr (h', g')"
    using assms by (simp add: per_param_round_def deepcopy_dict_def Let_def)
  have np: "node_params ?h2 new_node t = ?c" by (simp add: node_params_def)
  note f = per_param_loop_frame[OF r, unfolded np]
  show "nodes h' = nodes h" using f by simp
  show "next_addr h' = Suc (next_addr h)" using f by simp
  show "params_dicts h' x = params_dicts h x" if "x \<noteq> ?p" for x using f that by simp
  show "dicts h' x = dicts h x" if "x < next_addr h" for x using f that by simp
  show "node_params h' new_node t = next_addr h" using f by (simp add: node_params_def)
  show "node_params h' new_node t' = node_params h new_node t'" if "t' \<noteq> t" for t'
    using f that by (simp add: node_params_def)
qed

lemma per_param_round_returns:
  assumes wf: "well_formed (syntax_tokens self)" "well_formed (xss_payloads self)"
    and src: "node_params h from_node t < next_addr h"
    and other: "params (nodes h new_node) \<noteq> params (nodes h from_node)"
    and dist: "distinct (map fst (items h from_node t))"
  shows "\<exists>h' g'. per_param_round self from_node new_node t h g = Inr (h', g')
           \<and> length (dicts h' (next_addr h)) \<le> length (items h from_node t)"
proof -
  let ?c = "next_addr h"
  let ?h1 = "h\<lparr>dicts := (dicts h)(?c := dicts h (node_params h from_node t)), next_addr := ?c + 1\<rparr>"
  let ?p = "params (nodes h new_node)"
  let ?h2 = "?h1\<lparr>params_dicts := (params_dicts ?h1)(?p := (params_dicts ?h1 ?p)(t := ?c))\<rparr>"
  have r: "per_param_round self from_node new_node t h g
             = per_param_loop self new_node t (items ?h2 from_node t) ?h2 g"
    by (simp add: per_param_round_def deepcopy_dict_def Let_def)
  have np: "node_params ?h2 new_node t = ?c" by (simp add: node_params_def)
  have its: "items ?h2 from_node t = items h from_node t"
    using src other by (simp add: items_def node_params_def)
  have dc: "dicts ?h2 ?c = items h from_node t" by (simp add: items_def)
  have sub: "fst ` set (items ?h2 from_node t) \<subseteq> fst ` set (dicts ?h2 (node_params ?h2 new_node t))"
    unfolding np its dc by simp
  have d: "distinct (map fst (items ?h2 from_node t))" using dist its by simp
  from per_param_loop_returns[OF wf d sub, of g] obtain h' g' where
    "per_param_loop self new_node t (items ?h2 from_node t) ?h2 g = Inr (h', g')"
    "length (dicts h' (node_params ?h2 new_node t)) \<le> length (dicts ?h2 (node_params ?h2 new_node t))"
    by blast
  then show ?thesis unfolding r np dc by blast
qed

lemma per_param_mutate_frame:
  assumes "per_param_mutate self from_node new_node node_list h g = Inr (h', g')"
  shows "nodes h' = nodes h" and "next_addr h' = next_addr h + 2"
    and "\<And>x. x \<noteq> params (nodes h new_node) \<Longrightarrow> params_dicts h' x = params_dicts h x"
    and "\<And>x. x < next_addr h \<Longrightarrow> dicts h' x = dicts h x"
    and "node_params h' new_node GET = next_addr h"
    and "node_params h' new_node POST = next_addr h + 1"
proof -
  from assms obtain h1 g1 where
    a: "per_param_round self from_node new_node GET h g = Inr (h1, g1)"
    and b: "per_param_round self from_node new_node POST h1 g1 = Inr (h', g')"
    by (auto simp: per_param_mutate_def split: sum.splits)
  note fa = per_param_round_frame[OF a] and fb = per_param_round_frame[OF b]
  show "nodes h' = nodes h" using fa(1) fb(1) by simp
  show "next_addr h' = next_addr h + 2" using fa(2) fb(2) by simp
  show "params_dicts h' x = params_dicts h x" if "x \<noteq> params (nodes h new_node)" for x
    using fa(3)[of x] fb(3)[of x] fa(1) that by simp
  show "dicts h' x = dicts h x" if "x < next_addr h" for x
    using fa(4)[of x] fb(4)[of x] fa(2) that by simp
  show "node_params h' new_node GET = next_addr h"
    using fb(6)[of GET] fa(5) by simp
  show "node_params h' new_node POST = next_addr h + 1"
    using fb(5) fa(2) by simp
qed

lemma per_param_mutate_returns:
  assumes wf: "well_formed (syntax_tokens self)" "well_formed (xss_payloads self)"
    and src: "allocated h from_node"
    and other: "params (nodes h new_node) \<noteq> params (nodes h from_node)"
    and dist: "distinct (map fst (items h from_node GET))" "distinct (map fst (items h from_node POST))"
  shows "\<exists>h' g'. per_param_mutate self from_node new_node node_list h g = Inr (h', g')
           \<and> length (items h' new_node GET) \<le> length (items h from_node GET)
           \<and> length (items h' new_node POST) \<le> length (items h from_node POST)"
proof -
  have sg: "node_params h from_node GET < next_addr h" and sp: "node_params h from_node POST < next_addr h"
    using src by (simp_all add: allocated_def)
  from per_param_round_returns[OF wf sg other dist(1), of g] obtain h1 g1 where
    a: "per_param_round self from_node new_node GET h g = Inr (h1, g1)"
    and la: "length (dicts h1 (next_addr h)) \<le> length (items h from_node GET)" by blast
  note fa = per_param_round_frame[OF a]
  have np1: "node_params h1 from_node POST = node_params h from_node POST"
    using fa(1) fa(3)[of "params (nodes h from_node)"] other by (simp add: node_params_def)
  have it1: "items h1 from_node POST = items h from_node POST"
    using np1 fa(4)[of "node_params h from_node POST"] sp by (simp add: items_def)
  have sp1: "node_params h1 from_node POST < next_addr h1" using np1 sp fa(2) by simp
  have other1: "params (nodes h1 new_node) \<noteq> params (nodes h1 from_node)" using other fa(1) by simp
  have d1: "distinct (map fst (items h1 from_node POST))" using dist(2) it1 by simp
  from per_param_round_returns[OF wf sp1 other1 d1, of g1] obtain h' g' where
    b: "per_param_round self from_node new_node POST h1 g1 = Inr (h', g')"
    and lb: "length (dicts h' (next_addr h1)) \<le> length (items h1 from_node POST)" by blast
  note fb = per_param_round_frame[OF b]
  have r: "per_param_mutate self from_node new_node node_list h g = Inr (h', g')"
    using a b by (simp add: per_param_mutate_def)
  have "items h' new_node POST = dicts h' (next_addr h1)" using fb(5) by (simp add: items_def)
  then have p: "length (items h' new_node POST) \<le> length (items h from_node POST)"
    using lb it1 by simp
  have "node_params h' new_node GET = next_addr h" using fb(6)[of GET] fa(5) by simp
  then have "items h' new_node GET = dicts h1 (next_addr h)"
    using fb(4)[of "next_addr h"] fa(2) by (simp add: items_def)
  then have "length (items h' new_node GET) \<le> length (items h from_node GET)" using la by simp
  with r p show ?thesis by blast
qed

subsection \<open>What \<open>mutate\<close> leaves alone\<close>

text \<open>\<open>unchanged_below a h h'\<close>: the objects below the address \<open>a\<close> are in \<open>h'\<close> what they are
  in \<open>h\<close>.\<close>

definition unchanged_below :: "addr \<Rightarrow> heap \<Rightarrow> heap \<Rightarrow> bool" where
  "unchanged_below a h h' =
     (\<forall>x<a. nodes h' x = nodes h x \<and> params_dicts h' x = params_dicts h x
             \<and> dicts h' x = dicts h x)"

lemma unchanged_below_items:
  assumes "unchanged_below (next_addr h) h h'" and "allocated h n"
  shows "nodes h' n = nodes h n" and "node_params h' n t = node_params h n t"
    and "items h' n t = items h n t"
proof -
  from assms(2) have n: "n < next_addr h" and p: "params (nodes h n) < next_addr h"
    and d: "node_params h n t < next_addr h"
    by (cases t; simp add: allocated_def)+
  show 1: "nodes h' n = nodes h n" using assms(1) n by (simp add: unchanged_below_def)
  show 2: "node_params h' n t = node_params h n t"
    using assms(1) p 1 by (simp add: unchanged_below_def node_params_def)
  show "items h' n t = items h n t"
    using assms(1) d 2 by (simp add: unchanged_below_def items_def)
qed

lemma Node_init_fields:
  assumes "(new_node, h1) = Node_init u m parent h"
  shows "new_node = next_addr h"
    and "nodes h1 = (nodes h)(next_addr h := \<lparr>url = u, node_method = m, params = next_addr h + 1,
                                              node_size = 0, parent_request = parent\<rparr>)"
    and "\<And>x. x \<noteq> next_addr h + 1 \<Longrightarrow> params_dicts h1 x = params_dicts h x"
    and "\<And>x. x < next_addr h \<Longrightarrow> dicts h1 x = dicts h x"
    and "next_addr h1 = next_addr h + 4"
  using assms by (simp_all add: Node_init_def Let_def)

lemma installed_fresh:
  "next_addr h < node_params (installed from_node new_node h) new_node t"
  "nodes (installed from_node new_node h)
     = (nodes h)(new_node := (nodes h new_node)\<lparr>params := next_addr h\<rparr>)"
  "x \<noteq> next_addr h \<Longrightarrow> params_dicts (installed from_node new_node h) x = params_dicts h x"
  "x < next_addr h \<Longrightarrow> dicts (installed from_node new_node h) x = dicts h x"
  "next_addr h < next_addr (installed from_node new_node h)"
proof -
  obtain c h1 where d: "(c, h1) = deepcopy_params (params (nodes h from_node)) h"
    by (metis surj_pair)
  then have i: "installed from_node new_node h = h1\<lparr>nodes := (nodes h1)(new_node := (nodes h1 new_node)\<lparr>params := c\<rparr>)\<rparr>"
    by (simp add: installed_def split_def Let_def) (metis fst_conv snd_conv)
  note f = deepcopy_params_fields[OF d]
  show "next_addr h < node_params (installed from_node new_node h) new_node t"
    using f(5)[of t] by (simp add: i node_params_def)
  show "nodes (installed from_node new_node h)
     = (nodes h)(new_node := (nodes h new_node)\<lparr>params := next_addr h\<rparr>)"
    using f(1,2) by (simp add: i)
  show "params_dicts (installed from_node new_node h) x = params_dicts h x" if "x \<noteq> next_addr h"
    using f(1) f(3)[of x] that by (simp add: i)
  show "dicts (installed from_node new_node h) x = dicts h x" if "x < next_addr h"
    using f(4)[OF that] by (simp add: i)
  show "next_addr h < next_addr (installed from_node new_node h)" using f(6) by (simp add: i)
qed

lemma cross_over_frame:
  "nodes (cross_over from_node node_list new_node h)
     = (nodes h)(new_node := (nodes h new_node)\<lparr>params := next_addr h\<rparr>)"
  "x \<noteq> next_addr h \<Longrightarrow> params_dicts (cross_over from_node node_list new_node h) x = params_dicts h x"
  "x < next_addr h \<Longrightarrow> dicts (cross_over from_node node_list new_node h) x = dicts h x"
proof -
  let ?h2 = "installed from_node new_node h"
  let ?h3 = "cross_over_round node_list new_node ?h2 GET"
  let ?h4 = "cross_over_round node_list new_node ?h3 POST"
  have c: "cross_over from_node node_list new_node h = ?h4" by (simp add: cross_over_installed)
  note i = installed_fresh[where h = h and from_node = from_node and new_node = new_node]
  show "nodes (cross_over from_node node_list new_node h)
     = (nodes h)(new_node := (nodes h new_node)\<lparr>params := next_addr h\<rparr>)"
    by (simp add: c cross_over_round_frame i(2))
  show "params_dicts (cross_over from_node node_list new_node h) x = params_dicts h x" if "x \<noteq> next_addr h"
    using i(3)[OF that] by (simp add: c cross_over_round_frame)
  show "dicts (cross_over from_node node_list new_node h) x = dicts h x" if "x < next_addr h"
  proof -
    have 3: "node_params ?h3 new_node POST = node_params ?h2 new_node POST"
      by (simp add: node_params_def cross_over_round_frame)
    have "dicts ?h4 x = dicts ?h3 x"
      using i(1)[of POST] that 3 by (intro cross_over_round_frame(4)) simp
    also have "\<dots> = dicts ?h2 x"
      using i(1)[of GET] that by (intro cross_over_round_frame(4)) simp
    finally show ?thesis using i(4)[OF that] by (simp add: c)
  qed
qed

lemma calculate_param_size_fields:
  "nodes (calculate_param_size n h) x
     = (if x = n then (nodes h n)\<lparr>node_size := length (items h n GET) + length (items h n POST)\<rparr>
        else nodes h x)"
  "params_dicts (calculate_param_size n h) = params_dicts h"
  "dicts (calculate_param_size n h) = dicts h"
  "node_params (calculate_param_size n h) m t = node_params h m t"
  "items (calculate_param_size n h) m t = items h m t"
  by (simp_all add: calculate_param_size_def items_def node_params_def)

lemma coin_per_param:
  "random_choices [a, b] [80, 20] g = Inr (if shd g mod 100 < 80 then a else b, stl g)"
  by (simp add: random_choices_def Let_def bisect_step bisect_stop)


lemma Node_init_pair:
  "Node_init u m parent h = (next_addr h, snd (Node_init u m parent h))"
  by (simp add: Node_init_def Let_def)

lemma snd_Node_init:
  fixes h u m parent
  defines "h1 \<equiv> snd (Node_init u m parent h)"
  shows "nodes h1 = (nodes h)(next_addr h := \<lparr>url = u, node_method = m, params = next_addr h + 1,
                                              node_size = 0, parent_request = parent\<rparr>)"
    and "\<And>x. x \<noteq> next_addr h + 1 \<Longrightarrow> params_dicts h1 x = params_dicts h x"
    and "\<And>x. x < next_addr h \<Longrightarrow> dicts h1 x = dicts h x"
    and "next_addr h1 = next_addr h + 4"
  unfolding h1_def by (simp_all add: Node_init_def Let_def)

lemma Node_init_unchanged: "unchanged_below (next_addr h) h (snd (Node_init u m parent h))"
  by (simp add: unchanged_below_def snd_Node_init)

lemma allocated_Node_init:
  assumes "allocated h n"
  shows "allocated (snd (Node_init u m parent h)) n"
  using assms unchanged_below_items[OF Node_init_unchanged assms, of u m parent]
  by (simp add: allocated_def snd_Node_init)

lemma mutate_cases:
  fixes self from_node node_list h g
  defines "new_node \<equiv> next_addr h"
    and "h1 \<equiv> snd (Node_init (url (nodes h from_node)) (node_method (nodes h from_node)) (Some from_node) h)"
  assumes a: "allocated h from_node"
  shows "node_size (nodes h from_node) = 0 \<Longrightarrow>
           mutate self from_node node_list h g
             = Inr (new_node, calculate_param_size new_node (cross_over from_node node_list new_node h1), g)"
    and "node_size (nodes h from_node) \<noteq> 0 \<Longrightarrow> shd g mod 100 < 80 \<Longrightarrow>
           mutate self from_node node_list h g
             = (case per_param_mutate self from_node new_node node_list h1 (stl g) of
                  Inl e \<Rightarrow> Inl e
                | Inr (h2, g2) \<Rightarrow> Inr (new_node, calculate_param_size new_node h2, g2))"
    and "node_size (nodes h from_node) \<noteq> 0 \<Longrightarrow> 80 \<le> shd g mod 100 \<Longrightarrow>
           mutate self from_node node_list h g
             = Inr (new_node, calculate_param_size new_node (cross_over from_node node_list new_node h1),
                    stl (stl g))"
proof -
  have ne: "from_node \<noteq> next_addr h" using a by (simp add: allocated_def)
  have sz: "node_size (nodes h1 from_node) = node_size (nodes h from_node)"
    using ne by (simp add: h1_def snd_Node_init)
  have N: "Node_init (url (nodes h from_node)) (node_method (nodes h from_node)) (Some from_node) h
             = (new_node, h1)"
    unfolding new_node_def h1_def by (rule Node_init_pair)
  show "mutate self from_node node_list h g
             = Inr (new_node, calculate_param_size new_node (cross_over from_node node_list new_node h1), g)"
    if "node_size (nodes h from_node) = 0"
    using that sz by (simp add: mutate_def N)
  show "mutate self from_node node_list h g
             = (case per_param_mutate self from_node new_node node_list h1 (stl g) of
                  Inl e \<Rightarrow> Inl e
                | Inr (h2, g2) \<Rightarrow> Inr (new_node, calculate_param_size new_node h2, g2))"
    if "node_size (nodes h from_node) \<noteq> 0" "shd g mod 100 < 80"
    using that sz by (simp add: mutate_def N coin_per_param split: sum.splits)
  show "mutate self from_node node_list h g
             = Inr (new_node, calculate_param_size new_node (cross_over from_node node_list new_node h1),
                    stl (stl g))"
    if "node_size (nodes h from_node) \<noteq> 0" "80 \<le> shd g mod 100"
    using that sz by (simp add: mutate_def N coin_per_param all_param_mutate_def random_choice_def)
qed

lemma finish_mutate:
  fixes h from_node
  defines "new_node \<equiv> next_addr h"
    and "h1 \<equiv> snd (Node_init (url (nodes h from_node)) (node_method (nodes h from_node)) (Some from_node) h)"
  assumes n: "\<And>x. x \<noteq> new_node \<Longrightarrow> nodes h2 x = nodes h1 x"
    and u: "url (nodes h2 new_node) = url (nodes h1 new_node)"
      "node_method (nodes h2 new_node) = node_method (nodes h1 new_node)"
      "parent_request (nodes h2 new_node) = parent_request (nodes h1 new_node)"
    and p: "\<And>x. x < new_node \<Longrightarrow> params_dicts h2 x = params_dicts h1 x"
    and d: "\<And>x. x < new_node \<Longrightarrow> dicts h2 x = dicts h1 x"
  shows "url (nodes (calculate_param_size new_node h2) new_node) = url (nodes h from_node)"
    and "node_method (nodes (calculate_param_size new_node h2) new_node) = node_method (nodes h from_node)"
    and "parent_request (nodes (calculate_param_size new_node h2) new_node) = Some from_node"
    and "node_size (nodes (calculate_param_size new_node h2) new_node)
           = length (items (calculate_param_size new_node h2) new_node GET)
             + length (items (calculate_param_size new_node h2) new_node POST)"
    and "unchanged_below (next_addr h) h (calculate_param_size new_node h2)"
proof -
  let ?h' = "calculate_param_size new_node h2"
  have h1n: "nodes h1 new_node = \<lparr>url = url (nodes h from_node), node_method = node_method (nodes h from_node),
       params = next_addr h + 1, node_size = 0, parent_request = Some from_node\<rparr>"
    by (simp add: h1_def new_node_def snd_Node_init)
  show "url (nodes ?h' new_node) = url (nodes h from_node)"
    using u(1) h1n by (simp add: calculate_param_size_fields)
  show "node_method (nodes ?h' new_node) = node_method (nodes h from_node)"
    using u(2) h1n by (simp add: calculate_param_size_fields)
  show "parent_request (nodes ?h' new_node) = Some from_node"
    using u(3) h1n by (simp add: calculate_param_size_fields)
  show "node_size (nodes ?h' new_node)
           = length (items ?h' new_node GET) + length (items ?h' new_node POST)"
    by (simp add: calculate_param_size_fields)
  show "unchanged_below (next_addr h) h ?h'"
    unfolding unchanged_below_def
  proof (intro allI impI conjI)
    fix x assume x: "x < next_addr h"
    then have xn: "x \<noteq> new_node" "x < new_node" by (simp_all add: new_node_def)
    show "nodes ?h' x = nodes h x"
      using n[OF xn(1)] xn(1) x by (simp add: calculate_param_size_fields h1_def snd_Node_init new_node_def)
    show "params_dicts ?h' x = params_dicts h x"
      using p[OF xn(2)] x by (simp add: calculate_param_size_fields h1_def snd_Node_init)
    show "dicts ?h' x = dicts h x"
      using d[OF xn(2)] x by (simp add: calculate_param_size_fields h1_def snd_Node_init)
  qed
qed

lemma mutate_result:
  assumes a: "allocated h from_node"
    and r: "mutate self from_node node_list h g = Inr (n, h', g')"
  shows "n = next_addr h"
    and "url (nodes h' n) = url (nodes h from_node)"
    and "node_method (nodes h' n) = node_method (nodes h from_node)"
    and "parent_request (nodes h' n) = Some from_node"
    and "node_size (nodes h' n) = length (items h' n GET) + length (items h' n POST)"
    and "unchanged_below (next_addr h) h h'"
proof -
  let ?new = "next_addr h"
  let ?h1 = "snd (Node_init (url (nodes h from_node)) (node_method (nodes h from_node)) (Some from_node) h)"
  let ?hx = "cross_over from_node node_list ?new ?h1"
  note c = mutate_cases[OF a, where self = self and node_list = node_list and g = g]
  have X: "url (nodes (calculate_param_size ?new ?hx) ?new) = url (nodes h from_node)
         \<and> node_method (nodes (calculate_param_size ?new ?hx) ?new) = node_method (nodes h from_node)
         \<and> parent_request (nodes (calculate_param_size ?new ?hx) ?new) = Some from_node
         \<and> node_size (nodes (calculate_param_size ?new ?hx) ?new)
             = length (items (calculate_param_size ?new ?hx) ?new GET)
               + length (items (calculate_param_size ?new ?hx) ?new POST)
         \<and> unchanged_below (next_addr h) h (calculate_param_size ?new ?hx)"
    by (intro conjI finish_mutate) (simp_all add: cross_over_frame snd_Node_init)
  have P: "url (nodes (calculate_param_size ?new h2) ?new) = url (nodes h from_node)
         \<and> node_method (nodes (calculate_param_size ?new h2) ?new) = node_method (nodes h from_node)
         \<and> parent_request (nodes (calculate_param_size ?new h2) ?new) = Some from_node
         \<and> node_size (nodes (calculate_param_size ?new h2) ?new)
             = length (items (calculate_param_size ?new h2) ?new GET)
               + length (items (calculate_param_size ?new h2) ?new POST)
         \<and> unchanged_below (next_addr h) h (calculate_param_size ?new h2)"
    if "per_param_mutate self from_node ?new node_list ?h1 g1 = Inr (h2, g2)" for h2 g1 g2
  proof -
    note f = per_param_mutate_frame[OF that]
    show ?thesis
      by (intro conjI finish_mutate) (simp_all add: f(1) f(3) f(4) snd_Node_init)
  qed
  consider (zero) "node_size (nodes h from_node) = 0"
    | (per) "node_size (nodes h from_node) \<noteq> 0" "shd g mod 100 < 80"
    | (whole) "node_size (nodes h from_node) \<noteq> 0" "80 \<le> shd g mod 100"
    by linarith
  then have "n = next_addr h
     \<and> url (nodes h' n) = url (nodes h from_node)
     \<and> node_method (nodes h' n) = node_method (nodes h from_node)
     \<and> parent_request (nodes h' n) = Some from_node
     \<and> node_size (nodes h' n) = length (items h' n GET) + length (items h' n POST)
     \<and> unchanged_below (next_addr h) h h'"
  proof cases
    case zero
    from c(1)[OF zero] r have "n = ?new" "h' = calculate_param_size ?new ?hx" by simp_all
    then show ?thesis using X by simp
  next
    case per
    from c(2)[OF per] r obtain h2 g2 where
      "per_param_mutate self from_node ?new node_list ?h1 (stl g) = Inr (h2, g2)"
      "n = ?new" "h' = calculate_param_size ?new h2"
      by (auto split: sum.splits)
    then show ?thesis using P[of "stl g" h2 g2] by simp
  next
    case whole
    from c(3)[OF whole] r have "n = ?new" "h' = calculate_param_size ?new ?hx" by simp_all
    then show ?thesis using X by simp
  qed
  then show "n = next_addr h"
    and "url (nodes h' n) = url (nodes h from_node)"
    and "node_method (nodes h' n) = node_method (nodes h from_node)"
    and "parent_request (nodes h' n) = Some from_node"
    and "node_size (nodes h' n) = length (items h' n GET) + length (items h' n POST)"
    and "unchanged_below (next_addr h) h h'" by blast+
qed

lemma mutate_per_param_returns:
  assumes wf: "well_formed (syntax_tokens self)" "well_formed (xss_payloads self)"
    and a: "allocated h from_node"
    and dist: "distinct (map fst (items h from_node GET))" "distinct (map fst (items h from_node POST))"
    and path: "node_size (nodes h from_node) \<noteq> 0" "shd g mod 100 < 80"
  shows "\<exists>h' g'. mutate self from_node node_list h g = Inr (next_addr h, h', g')
           \<and> length (items h' (next_addr h) GET) \<le> length (items h from_node GET)
           \<and> length (items h' (next_addr h) POST) \<le> length (items h from_node POST)"
proof -
  let ?new = "next_addr h"
  let ?h1 = "snd (Node_init (url (nodes h from_node)) (node_method (nodes h from_node)) (Some from_node) h)"
  have a1: "allocated ?h1 from_node" using a by (rule allocated_Node_init)
  note u = unchanged_below_items[OF Node_init_unchanged a]
  have ne: "from_node \<noteq> ?new" and pl: "params (nodes h from_node) < next_addr h"
    using a by (simp_all add: allocated_def)
  have other: "params (nodes ?h1 ?new) \<noteq> params (nodes ?h1 from_node)"
    using ne pl by (simp add: snd_Node_init)
  have d1: "distinct (map fst (items ?h1 from_node GET))" "distinct (map fst (items ?h1 from_node POST))"
    using dist by (simp_all add: u(3))
  from per_param_mutate_returns[OF wf a1 other d1, where node_list = node_list and g = "stl g"] obtain h2 g2 where
    r: "per_param_mutate self from_node ?new node_list ?h1 (stl g) = Inr (h2, g2)"
    and l: "length (items h2 ?new GET) \<le> length (items ?h1 from_node GET)"
      "length (items h2 ?new POST) \<le> length (items ?h1 from_node POST)" by blast
  have "mutate self from_node node_list h g = Inr (?new, calculate_param_size ?new h2, g2)"
    using mutate_cases(2)[OF a path, where self = self and node_list = node_list] r by simp
  moreover have "length (items (calculate_param_size ?new h2) ?new GET) \<le> length (items h from_node GET)"
    "length (items (calculate_param_size ?new h2) ?new POST) \<le> length (items h from_node POST)"
    using l by (simp_all add: calculate_param_size_fields u(3))
  ultimately show ?thesis by blast
qed

subsection \<open>Runs of \<open>mutate\<close> on the scenario\<close>

definition scenario_mutator :: Mutator where
  "scenario_mutator = Mutator_init [''a''] [''b''] [''c''] [''<''] [''?''] [''{'']"

lemma scenario_alter_type:
  "alter_type ''a'' v = (''a[]'', v)" "alter_type ''a[]'' v = (''a'', v)"
proof -
  show "alter_type ''a'' v = (''a[]'', v)"
    using alter_type_append[of "''a''" v] re_findall_no_open[of "''a''"] by simp
  show "alter_type ''a[]'' v = (''a'', v)"
    using alter_type_strip[of "[]" "''a''" v] by simp
qed

lemma scenario_registry_30:
  "mutator (per_param_mutators self) (sconst 30) = Inr (no_draw alter_type, sconst 30)"
  by (simp add: mutator_def per_param_mutators_def functions_of_def func_weights_def
      random_choices_def Let_def bisect_step bisect_stop FREQ_XSS_PAYLOAD_def FREQ_TYPE_ALTER_def
      FREQ_RAND_TEXT_def FREQ_SYNTAX_TOKEN_def FREQ_SKIP_PARAM_def)

lemma scenario_per_param_run:
  "case mutate scenario_mutator 5 [] scenario_heap (0 ## sconst 30) of
     Inl e \<Rightarrow> False
   | Inr (n, h', g') \<Rightarrow> n = 12 \<and> items h' 12 GET = [(''a'', [''2''])] \<and> items h' 12 POST = []
        \<and> node_size (nodes h' 12) = 1"
  by (simp add: mutate_def Node_init_def coin_per_param per_param_mutate_def per_param_round_def
      deepcopy_dict_def Let_def scenario_registry_30 no_draw_def scenario_alter_type
      dict_delitem_def scenario_heap_def items_def node_params_def calculate_param_size_def)

lemma scenario_whole_node_run:
  "case mutate scenario_mutator 2 [0, 1] scenario_heap (sconst 80) of
     Inl e \<Rightarrow> False
   | Inr (n, h', g') \<Rightarrow> n = 12 \<and> url (nodes h' 12) = ''/a'' \<and> parent_request (nodes h' 12) = Some 2
        \<and> map fst (items h' 12 GET) = [''id'', ''q'', ''a'', ''b'', ''c'', ''d'', ''e'']
        \<and> items h' 12 POST = [] \<and> node_size (nodes h' 12) = 7"
  by (simp add: mutate_def Node_init_def coin_per_param all_param_mutate_def random_choice_def
      cross_over_def deepcopy_params_def deepcopy_dict_def Let_def cross_over_round_def
      select_favourable_node_def ceil_half_eq merge_nodes_def
      scenario_heap_def items_def node_params_def calculate_param_size_def)

lemma scenario_node_5:
  "allocated scenario_heap 5" "allocated scenario_heap 0" "allocated scenario_heap 2"
  "allocated scenario_heap (Suc 0)"
  "items scenario_heap 5 GET = [(''a'', [''1'']), (''a[]'', [''2''])]"
  "items scenario_heap 5 POST = []" "node_size (nodes scenario_heap 5) = 2"
  "items scenario_heap 2 GET = [(''id'', [''1'']), (''q'', [''x''])]"
  "items scenario_heap 2 POST = []" "node_size (nodes scenario_heap 2) = 2"
  "next_addr scenario_heap = 12"
  by (simp_all add: scenario_heap_def allocated_def items_def node_params_def)

lemma scenario_mutator_well_formed:
  "well_formed (syntax_tokens scenario_mutator)" "well_formed (xss_payloads scenario_mutator)"
  by (simp_all add: scenario_mutator_def Mutator_init_well_formed)

subsection \<open>The engine\<close>

text \<open>The first statement of \<open>mutate\<close>: the new node and the store that holds it.\<close>

definition built :: "heap \<Rightarrow> addr \<Rightarrow> addr \<times> heap" where
  "built h from_node =
     Node_init (url (nodes h from_node)) (node_method (nodes h from_node)) (Some from_node) h"

text \<open>
  Claim C5. \<open>mutate\<close> builds a new node with the url and the method of the source and
  the source as its parent. When the source has no parameter it calls \<open>cross_over\<close>
  directly. Otherwise the weighted draw has 100 points, of which the 80 points below 80
  choose \<open>per_param_mutate\<close> and the 20 others \<open>all_param_mutate\<close>, whose only strategy is
  \<open>cross_over\<close>. The size of the new node is computed from its final params, and the new
  node is returned. The source is a node of the store whose size is the number of its
  parameters. The per-parameter path returns when no payload kind is empty (and the
  names of a dict are distinct, as in every Python dict); the other paths always return.
\<close>

theorem mutate_structure:
  assumes a: "allocated h from_node"
    and sz: "node_size (nodes h from_node)
               = length (items h from_node GET) + length (items h from_node POST)"
  shows "(length (items h from_node GET) + length (items h from_node POST) = 0 \<longrightarrow>
            mutate self from_node node_list h g
              = Inr (fst (built h from_node),
                     calculate_param_size (fst (built h from_node))
                       (cross_over from_node node_list (fst (built h from_node))
                          (snd (built h from_node))), g))
       \<and> (length (items h from_node GET) + length (items h from_node POST) \<noteq> 0
            \<and> shd g mod 100 < 80 \<longrightarrow>
            mutate self from_node node_list h g
              = (case per_param_mutate self from_node (fst (built h from_node)) node_list
                        (snd (built h from_node)) (stl g) of
                   Inl e \<Rightarrow> Inl e
                 | Inr (h2, g2) \<Rightarrow>
                     Inr (fst (built h from_node),
                          calculate_param_size (fst (built h from_node)) h2, g2)))
       \<and> (length (items h from_node GET) + length (items h from_node POST) \<noteq> 0
            \<and> 80 \<le> shd g mod 100 \<longrightarrow>
            mutate self from_node node_list h g
              = Inr (fst (built h from_node),
                     calculate_param_size (fst (built h from_node))
                       (cross_over from_node node_list (fst (built h from_node))
                          (snd (built h from_node))), stl (stl g)))
       \<and> (\<forall>n h' g'. mutate self from_node node_list h g = Inr (n, h', g') \<longrightarrow>
            n = fst (built h from_node)
            \<and> url (nodes h' n) = url (nodes h from_node)
            \<and> node_method (nodes h' n) = node_method (nodes h from_node)
            \<and> parent_request (nodes h' n) = Some from_node
            \<and> node_size (nodes h' n) = length (items h' n GET) + length (items h' n POST))
       \<and> (well_formed (syntax_tokens self) \<and> well_formed (xss_payloads self)
            \<and> distinct (map fst (items h from_node GET))
            \<and> distinct (map fst (items h from_node POST)) \<longrightarrow>
            (\<exists>n h' g'. mutate self from_node node_list h g = Inr (n, h', g')))"
proof -
  have b: "fst (built h from_node) = next_addr h"
    by (simp add: built_def Node_init_def Let_def)
  note c = mutate_cases[OF a, where self = self and node_list = node_list and g = g,
      folded built_def]
  have 1: "length (items h from_node GET) + length (items h from_node POST) = 0 \<longrightarrow>
            mutate self from_node node_list h g
              = Inr (fst (built h from_node),
                     calculate_param_size (fst (built h from_node))
                       (cross_over from_node node_list (fst (built h from_node))
                          (snd (built h from_node))), g)"
    using c(1) sz unfolding b by simp
  have 2: "length (items h from_node GET) + length (items h from_node POST) \<noteq> 0
            \<and> shd g mod 100 < 80 \<longrightarrow>
            mutate self from_node node_list h g
              = (case per_param_mutate self from_node (fst (built h from_node)) node_list
                        (snd (built h from_node)) (stl g) of
                   Inl e \<Rightarrow> Inl e
                 | Inr (h2, g2) \<Rightarrow>
                     Inr (fst (built h from_node),
                          calculate_param_size (fst (built h from_node)) h2, g2))"
    using c(2) sz unfolding b by simp
  have 3: "length (items h from_node GET) + length (items h from_node POST) \<noteq> 0
            \<and> 80 \<le> shd g mod 100 \<longrightarrow>
            mutate self from_node node_list h g
              = Inr (fst (built h from_node),
                     calculate_param_size (fst (built h from_node))
                       (cross_over from_node node_list (fst (built h from_node))
                          (snd (built h from_node))), stl (stl g))"
    using c(3) sz unfolding b by simp
  have 4: "\<forall>n h' g'. mutate self from_node node_list h g = Inr (n, h', g') \<longrightarrow>
            n = fst (built h from_node)
            \<and> url (nodes h' n) = url (nodes h from_node)
            \<and> node_method (nodes h' n) = node_method (nodes h from_node)
            \<and> parent_request (nodes h' n) = Some from_node
            \<and> node_size (nodes h' n) = length (items h' n GET) + length (items h' n POST)"
  proof (intro allI impI)
    fix n h' g' assume r: "mutate self from_node node_list h g = Inr (n, h', g')"
    note m = mutate_result[OF a r]
    show "n = fst (built h from_node)
            \<and> url (nodes h' n) = url (nodes h from_node)
            \<and> node_method (nodes h' n) = node_method (nodes h from_node)
            \<and> parent_request (nodes h' n) = Some from_node
            \<and> node_size (nodes h' n) = length (items h' n GET) + length (items h' n POST)"
      using m(1-5) b by simp
  qed
  have 5: "well_formed (syntax_tokens self) \<and> well_formed (xss_payloads self)
            \<and> distinct (map fst (items h from_node GET))
            \<and> distinct (map fst (items h from_node POST)) \<longrightarrow>
            (\<exists>n h' g'. mutate self from_node node_list h g = Inr (n, h', g'))"
  proof (intro impI, elim conjE)
    assume w: "well_formed (syntax_tokens self)" "well_formed (xss_payloads self)"
      and d: "distinct (map fst (items h from_node GET))" "distinct (map fst (items h from_node POST))"
    consider (zero) "node_size (nodes h from_node) = 0"
      | (per) "node_size (nodes h from_node) \<noteq> 0" "shd g mod 100 < 80"
      | (whole) "node_size (nodes h from_node) \<noteq> 0" "80 \<le> shd g mod 100"
      by linarith
    then show "\<exists>n h' g'. mutate self from_node node_list h g = Inr (n, h', g')"
    proof cases
      case zero
      from c(1)[OF zero] show ?thesis by blast
    next
      case per
      from mutate_per_param_returns[OF w a d per, of node_list] show ?thesis by blast
    next
      case whole
      from c(3)[OF whole] show ?thesis by blast
    qed
  qed
  from 1 2 3 4 5 show ?thesis by (intro conjI)
qed

theorem mutate_structure_witness:
  "allocated scenario_heap 2
   \<and> node_size (nodes scenario_heap 2)
       = length (items scenario_heap 2 GET) + length (items scenario_heap 2 POST)
   \<and> (\<exists>h' g'. mutate scenario_mutator 2 [0, 1] scenario_heap (sconst 80) = Inr (12, h', g')
         \<and> url (nodes h' 12) = ''/a'' \<and> node_method (nodes h' 12) = GET
         \<and> parent_request (nodes h' 12) = Some 2
         \<and> node_size (nodes h' 12) = 7
         \<and> length (items h' 12 GET) + length (items h' 12 POST) = 7)"
proof -
  have a: "allocated scenario_heap 2" by (rule scenario_node_5)
  have sz: "node_size (nodes scenario_heap 2)
       = length (items scenario_heap 2 GET) + length (items scenario_heap 2 POST)"
    by (simp add: scenario_node_5)
  note t = mutate_structure[OF a sz, where self = scenario_mutator and node_list = "[0, 1]"
      and g = "sconst 80"]
  have w: "well_formed (syntax_tokens scenario_mutator) \<and> well_formed (xss_payloads scenario_mutator)
            \<and> distinct (map fst (items scenario_heap 2 GET))
            \<and> distinct (map fst (items scenario_heap 2 POST))"
    by (simp add: scenario_mutator_well_formed scenario_node_5)
  from t[THEN conjunct2, THEN conjunct2, THEN conjunct2, THEN conjunct2, rule_format, OF w]
  obtain n h' g' where r: "mutate scenario_mutator 2 [0, 1] scenario_heap (sconst 80) = Inr (n, h', g')"
    by blast
  from t[THEN conjunct2, THEN conjunct2, THEN conjunct2, THEN conjunct1, rule_format, OF r]
  have p: "n = fst (built scenario_heap 2)" "url (nodes h' n) = url (nodes scenario_heap 2)"
    "node_method (nodes h' n) = node_method (nodes scenario_heap 2)"
    "parent_request (nodes h' n) = Some 2"
    "node_size (nodes h' n) = length (items h' n GET) + length (items h' n POST)" by blast+
  have n: "n = 12" using p(1) by (simp add: built_def Node_init_def Let_def scenario_node_5)
  have s: "node_size (nodes h' 12) = 7" using scenario_whole_node_run r n by simp
  have u: "url (nodes scenario_heap 2) = ''/a''" "node_method (nodes scenario_heap 2) = GET"
    by (simp_all add: scenario_heap_def)
  from a sz r p n s u show ?thesis by auto
qed

text \<open>
  Claim C9. \<open>mutate\<close> changes neither its source node nor a node of the corpus: when it
  returns, every such node is the object it was, its params refer to the same two
  dicts, and both dicts hold the items they held. The new node is none of them. The
  nodes are allocated in the store before the call.
\<close>

theorem mutate_leaves_source_and_corpus:
  assumes r: "mutate self from_node node_list h g = Inr (new_node, h', g')"
    and a: "\<forall>n\<in>set (from_node # node_list). allocated h n"
  shows "\<forall>n\<in>set (from_node # node_list).
           n \<noteq> new_node \<and> nodes h' n = nodes h n
           \<and> node_params h' n GET = node_params h n GET
           \<and> node_params h' n POST = node_params h n POST
           \<and> items h' n GET = items h n GET \<and> items h' n POST = items h n POST"
proof
  fix n assume i: "n \<in> set (from_node # node_list)"
  from a i have n: "allocated h n" by blast
  from a have f: "allocated h from_node" by simp
  note m = mutate_result[OF f r]
  note u = unchanged_below_items[OF m(6) n]
  have "n \<noteq> new_node" using n m(1) by (simp add: allocated_def)
  with u show "n \<noteq> new_node \<and> nodes h' n = nodes h n
           \<and> node_params h' n GET = node_params h n GET
           \<and> node_params h' n POST = node_params h n POST
           \<and> items h' n GET = items h n GET \<and> items h' n POST = items h n POST" by simp
qed

theorem mutate_leaves_source_and_corpus_witness:
  "allocated scenario_heap 5 \<and> allocated scenario_heap 0
   \<and> (\<exists>h' g'. mutate scenario_mutator 5 [5, 0] scenario_heap (0 ## sconst 30) = Inr (12, h', g')
         \<and> items h' 12 GET = [(''a'', [''2''])]
         \<and> items h' 5 GET = [(''a'', [''1'']), (''a[]'', [''2''])]
         \<and> items h' 5 POST = []
         \<and> length (items h' 0 GET) = 3)"
proof -
  have a: "\<forall>n\<in>set (5 # [5, 0]). allocated scenario_heap n" by (simp add: scenario_node_5)
  have e: "mutate scenario_mutator 5 [5, 0] scenario_heap (0 ## sconst 30)
             = mutate scenario_mutator 5 [] scenario_heap (0 ## sconst 30)"
    by (simp add: mutate_def coin_per_param per_param_mutate_def per_param_round_def
        scenario_node_5 Node_init_def Let_def scenario_heap_def)
  obtain n h' g' where r: "mutate scenario_mutator 5 [5, 0] scenario_heap (0 ## sconst 30)
      = Inr (n, h', g')"
    and v: "n = 12" "items h' 12 GET = [(''a'', [''2''])]"
    using scenario_per_param_run unfolding e[symmetric]
    by (cases "mutate scenario_mutator 5 [5, 0] scenario_heap (0 ## sconst 30)") auto
  from mutate_leaves_source_and_corpus[OF r a]
  have "items h' 5 GET = items scenario_heap 5 GET" "items h' 5 POST = items scenario_heap 5 POST"
    "items h' 0 GET = items scenario_heap 0 GET" by simp_all
  then have "items h' 5 GET = [(''a'', [''1'']), (''a[]'', [''2''])]" "items h' 5 POST = []"
    "length (items h' 0 GET) = 3"
    by (simp_all add: scenario_node_5 scenario_counts)
  with r v scenario_node_5(1,2) show ?thesis by auto
qed

text \<open>
  Claim C10. On the per-parameter path each group of the new node has at most as many
  parameters as the group of the source: a parameter whose name stays overwrites its
  entry, a renamed one is deleted and inserted under the new name, and when the new name
  is already there the two entries become one. The path is taken when the source has a
  size other than zero and the draw falls below 80; no payload kind is empty, and the
  names in a dict of the source are distinct.
\<close>

theorem per_param_count_never_grows:
  assumes "well_formed (syntax_tokens self)" and "well_formed (xss_payloads self)"
    and "allocated h from_node"
    and "distinct (map fst (items h from_node GET))"
    and "distinct (map fst (items h from_node POST))"
    and "node_size (nodes h from_node) \<noteq> 0" and "shd g mod 100 < 80"
  shows "\<exists>h' g'. mutate self from_node node_list h g = Inr (next_addr h, h', g')
           \<and> length (items h' (next_addr h) GET) \<le> length (items h from_node GET)
           \<and> length (items h' (next_addr h) POST) \<le> length (items h from_node POST)"
  using assms by (rule mutate_per_param_returns)

theorem per_param_count_never_grows_witness:
  "well_formed (syntax_tokens scenario_mutator) \<and> well_formed (xss_payloads scenario_mutator)
   \<and> allocated scenario_heap 5
   \<and> distinct (map fst (items scenario_heap 5 GET))
   \<and> distinct (map fst (items scenario_heap 5 POST))
   \<and> node_size (nodes scenario_heap 5) \<noteq> 0 \<and> shd (0 ## sconst 30 :: nat stream) mod 100 < 80
   \<and> length (items scenario_heap 5 GET) = 2
   \<and> (\<exists>h' g'. mutate scenario_mutator 5 [] scenario_heap (0 ## sconst 30) = Inr (12, h', g')
         \<and> length (items h' 12 GET) = 1 \<and> length (items h' 12 POST) = 0)"
proof -
  note w = scenario_mutator_well_formed
  have a: "allocated scenario_heap 5" by (rule scenario_node_5)
  have d: "distinct (map fst (items scenario_heap 5 GET))"
    "distinct (map fst (items scenario_heap 5 POST))"
    by (simp_all add: scenario_node_5)
  have p: "node_size (nodes scenario_heap 5) \<noteq> 0" "shd (0 ## sconst 30 :: nat stream) mod 100 < 80"
    by (simp_all add: scenario_node_5)
  from per_param_count_never_grows[OF w(1) w(2) a d p, of "[]"] obtain h' g' where
    r: "mutate scenario_mutator 5 [] scenario_heap (0 ## sconst 30) = Inr (next_addr scenario_heap, h', g')"
    by blast
  have "length (items h' 12 GET) = 1 \<and> length (items h' 12 POST) = 0"
    using scenario_per_param_run r by (simp add: scenario_node_5)
  with r w a d p show ?thesis by (auto simp: scenario_node_5)
qed

end
